theory Spec2Isabelle
  imports Complex_Main
begin

section \<open>Values exchanged with the upstream provider\<close>

text \<open>
  The body of a successful upstream response, as far as \<open>fetchApiKeyData\<close> reads it:
  \<open>apiData.usage\<close>, \<open>apiData.usage.standard\<close> and the five fields below them.  A
  property that the provider left out reads as \<open>undefined\<close> in the source and is
  \<open>None\<close> here.  Token counts are modelled as unbounded integers, the ratio as a
  rational number.
\<close>

datatype standardUsage = StandardUsage
  (su_orgTotalTokensUsed: "int option")
  (su_totalAllowance: "int option")
  (su_usedRatio: "rat option")

datatype usageInfo = UsageInfo
  (ui_startDate: "int option")
  (ui_endDate: "int option")
  (ui_standard: "standardUsage option")

datatype apiData = ApiData (ad_usage: "usageInfo option")

text \<open>
  What \<open>await fetch(...)\<close> settles to.  \<open>Refused msg\<close>: the runtime does not accept
  the \<open>Authorization\<close> value as a header value, the promise is rejected and no request is
  sent.  \<open>Rejected msg\<close>: the request is sent and the promise is rejected (no response
  arrives).  A response carries its status, what \<open>response.text()\<close> yields and what
  \<open>response.json()\<close> yields: \<open>Inl msg\<close> when the call throws, and for \<open>json()\<close>
  also when the body is not an object whose properties can be read.
\<close>

datatype fetch_outcome =
    Refused string
  | Rejected string
  | Response (status: nat) (body_text: "string + string") (body_json: "string + apiData")

fun is_refused :: "fetch_outcome \<Rightarrow> bool" where
  "is_refused (Refused msg) = True"
| "is_refused (Rejected msg) = False"
| "is_refused (Response st txt js) = False"

definition response_ok :: "nat \<Rightarrow> bool" where
  "response_ok st = (200 \<le> st \<and> st \<le> 299)"

section \<open>The credential store entry and the per-credential result\<close>

record apiKeyEntry =
  entry_id :: string
  entry_key :: string
  entry_name :: "string option"
  createdAt :: int

text \<open>
  The object returned by \<open>fetchApiKeyData\<close>: either \<open>{id, key, error}\<close> or
  \<open>{id, key, startDate, endDate, orgTotalTokensUsed, totalAllowance, usedRatio}\<close>.
\<close>

datatype usage_result =
    ErrResult string string string
  | OkResult string string string string "int option" "int option" "rat option"

fun res_id :: "usage_result \<Rightarrow> string" where
  "res_id (ErrResult i k e) = i"
| "res_id (OkResult i k sd ed u a r) = i"

fun res_key :: "usage_result \<Rightarrow> string" where
  "res_key (ErrResult i k e) = k"
| "res_key (OkResult i k sd ed u a r) = k"

text \<open>Reading a property the object does not have gives \<open>undefined\<close>, here \<open>None\<close>.\<close>

fun res_error :: "usage_result \<Rightarrow> string option" where
  "res_error (ErrResult i k e) = Some e"
| "res_error (OkResult i k sd ed u a r) = None"

fun orgTotalTokensUsed :: "usage_result \<Rightarrow> int option" where
  "orgTotalTokensUsed (ErrResult i k e) = None"
| "orgTotalTokensUsed (OkResult i k sd ed u a r) = u"

fun totalAllowance :: "usage_result \<Rightarrow> int option" where
  "totalAllowance (ErrResult i k e) = None"
| "totalAllowance (OkResult i k sd ed u a r) = a"

fun usedRatio :: "usage_result \<Rightarrow> rat option" where
  "usedRatio (ErrResult i k e) = None"
| "usedRatio (OkResult i k sd ed u a r) = r"

fun is_ok :: "usage_result \<Rightarrow> bool" where
  "is_ok (ErrResult i k e) = False"
| "is_ok (OkResult i k sd ed u a r) = True"

section \<open>Observable effects\<close>

text \<open>
  The effects of the aggregation core, recorded as a trace: an outbound request to the
  upstream provider being issued with a bearer token, that request settling, and a line
  written by \<open>console.error\<close> or \<open>console.log\<close>.
\<close>

datatype event =
    FetchStart string
  | FetchEnd string
  | ConsoleError string
  | ConsoleLog string

fun is_FetchStart :: "event \<Rightarrow> bool" where
  "is_FetchStart (FetchStart k) = True"
| "is_FetchStart _ = False"

text \<open>The text an event writes to the log, if it writes any.\<close>

fun logged :: "event \<Rightarrow> string option" where
  "logged (ConsoleError s) = Some s"
| "logged (ConsoleLog s) = Some s"
| "logged _ = None"

text \<open>
  The collaborators the code calls but does not define: the runtime's \<open>fetch\<close>
  together with the upstream provider (what \<open>fetch\<close>, called with a given key as
  bearer token, settles to), the clock, the date formatting of the standard library, and
  \<open>Date.prototype.toISOString\<close> cut at \<open>T\<close>, which throws (\<open>None\<close>) on a time
  value out of range.
\<close>

record env =
  upstream :: "string \<Rightarrow> fetch_outcome"
  now :: int
  format_time :: "int \<Rightarrow> string"
  toISODate :: "int \<Rightarrow> string option"

section \<open>Strings\<close>

text \<open>\<open>String.prototype.substring\<close>: indices below zero are taken as zero.\<close>

definition substring :: "string \<Rightarrow> int \<Rightarrow> int \<Rightarrow> string" where
  "substring s i j = (let a = nat (max 0 i); b = nat (max 0 j)
     in take (max a b - min a b) (drop (min a b) s))"

definition substring_from :: "string \<Rightarrow> int \<Rightarrow> string" where
  "substring_from s i = drop (nat (max 0 i)) s"

text \<open>Decimal rendering of a number inside a template literal.\<close>

definition digit_char :: "nat \<Rightarrow> char" where
  "digit_char d = ''0123456789'' ! d"

function show_nat :: "nat \<Rightarrow> string" where
  "show_nat n = (if n < 10 then [digit_char n] else show_nat (n div 10) @ [digit_char (n mod 10)])"
  by pat_completeness auto
termination
  by (relation "measure id") auto

declare show_nat.simps [simp del]

definition errorMask :: "string \<Rightarrow> string" where
  "errorMask key = substring key 0 4 @ ''...''"

definition maskedKey :: "string \<Rightarrow> string" where
  "maskedKey key = substring key 0 4 @ ''...'' @ substring_from key (int (length key) - 4)"

section \<open>fetchApiKeyData\<close>

definition formatDate :: "env \<Rightarrow> int option \<Rightarrow> string" where
  "formatDate E timestamp =
     (case timestamp of
        None \<Rightarrow> ''N/A''
      | Some t \<Rightarrow> (case toISODate E t of Some d \<Rightarrow> d | None \<Rightarrow> ''Invalid Date''))"

text \<open>
  The part of \<open>fetchApiKeyData\<close> that runs once \<open>await fetch(...)\<close> has settled.  It
  returns the result object and the lines it logs.  Every exception raised inside the
  \<open>try\<close> block ends in the \<open>catch\<close> branch.
\<close>

definition fetchApiKeyData_settled ::
    "env \<Rightarrow> string \<Rightarrow> string \<Rightarrow> fetch_outcome \<Rightarrow> usage_result \<times> event list" where
  "fetchApiKeyData_settled E ident key outcome =
     (case outcome of
        Refused msg \<Rightarrow>
          (ErrResult ident (errorMask key) ''Failed to fetch'',
           [ConsoleError (''Failed to process key ID '' @ ident @ '': '' @ msg)])
      | Rejected msg \<Rightarrow>
          (ErrResult ident (errorMask key) ''Failed to fetch'',
           [ConsoleError (''Failed to process key ID '' @ ident @ '': '' @ msg)])
      | Response st txt js \<Rightarrow>
          if \<not> response_ok st then
            (case txt of
               Inl msg \<Rightarrow>
                 (ErrResult ident (errorMask key) ''Failed to fetch'',
                  [ConsoleError (''Failed to process key ID '' @ ident @ '': '' @ msg)])
             | Inr errorBody \<Rightarrow>
                 (ErrResult ident (errorMask key) (''HTTP '' @ show_nat st),
                  [ConsoleError (''Error fetching data for key ID '' @ ident @ '': ''
                     @ show_nat st @ '' '' @ errorBody)]))
          else
            (case js of
               Inl msg \<Rightarrow>
                 (ErrResult ident (errorMask key) ''Failed to fetch'',
                  [ConsoleError (''Failed to process key ID '' @ ident @ '': '' @ msg)])
             | Inr apiData \<Rightarrow>
                 (case ad_usage apiData of
                    None \<Rightarrow> (ErrResult ident (errorMask key) ''Invalid API response structure'', [])
                  | Some usageInfo \<Rightarrow>
                      (case ui_standard usageInfo of
                         None \<Rightarrow>
                           (ErrResult ident (errorMask key) ''Invalid API response structure'', [])
                       | Some standardUsage \<Rightarrow>
                           (OkResult ident (maskedKey key)
                              (formatDate E (ui_startDate usageInfo))
                              (formatDate E (ui_endDate usageInfo))
                              (su_orgTotalTokensUsed standardUsage)
                              (su_totalAllowance standardUsage)
                              (su_usedRatio standardUsage), [])))))"

text \<open>
  The whole call: \<open>fetch\<close> is called with the key as bearer token, whatever the key
  is; a request goes out unless the runtime refuses the header; the rest runs on what the
  call settles to.
\<close>

definition request_start :: "env \<Rightarrow> string \<Rightarrow> event list" where
  "request_start E key = (if is_refused (upstream E key) then [] else [FetchStart key])"

definition request_end :: "env \<Rightarrow> string \<Rightarrow> event list" where
  "request_end E key = (if is_refused (upstream E key) then [] else [FetchEnd key])"

definition fetchApiKeyData :: "env \<Rightarrow> string \<Rightarrow> string \<Rightarrow> usage_result \<times> event list" where
  "fetchApiKeyData E ident key =
     (let (r, evs) = fetchApiKeyData_settled E ident key (upstream E key)
      in (r, request_start E key @ request_end E key @ evs))"

section \<open>getAggregatedData\<close>

text \<open>
  A JavaScript number as far as the model follows it.  \<open>Exact n\<close> is the double whose
  value is the integer \<open>n\<close>, \<open>NaN\<close> is not-a-number, and \<open>Inexact\<close> is any other
  double: its value is not determined here.  Every integer of magnitude up to \<open>2^53\<close>
  is a double, and an addition or subtraction of doubles whose mathematical result is
  such an integer yields exactly it; past that bound the result is rounded, and the model
  answers \<open>Inexact\<close>.
\<close>

datatype jsnum = Exact int | Inexact | NaN

definition exact_int :: "int \<Rightarrow> jsnum" where
  "exact_int n = (if \<bar>n\<bar> \<le> 2 ^ 53 then Exact n else Inexact)"

text \<open>
  The token counts of a result are the numbers the provider sent, or \<open>undefined\<close>
  (\<open>None\<close>).  \<open>v || 0\<close> replaces \<open>undefined\<close> (and zero) by zero; in a subtraction
  \<open>undefined\<close> becomes \<open>NaN\<close>, which \<open>Math.max\<close> and \<open>+=\<close> hand on.
\<close>

definition or0 :: "int option \<Rightarrow> int" where
  "or0 v = (case v of None \<Rightarrow> 0 | Some n \<Rightarrow> n)"

definition to_number :: "int option \<Rightarrow> jsnum" where
  "to_number v = (case v of None \<Rightarrow> NaN | Some n \<Rightarrow> exact_int n)"

fun js_add :: "jsnum \<Rightarrow> jsnum \<Rightarrow> jsnum" where
  "js_add (Exact x) (Exact y) = exact_int (x + y)"
| "js_add NaN b = NaN"
| "js_add a NaN = NaN"
| "js_add a b = Inexact"

fun js_sub :: "jsnum \<Rightarrow> jsnum \<Rightarrow> jsnum" where
  "js_sub (Exact x) (Exact y) = exact_int (x - y)"
| "js_sub NaN b = NaN"
| "js_sub a NaN = NaN"
| "js_sub a b = Inexact"

text \<open>\<open>Math.max(x, 0)\<close>.\<close>

fun js_max0 :: "jsnum \<Rightarrow> jsnum" where
  "js_max0 (Exact x) = Exact (max x 0)"
| "js_max0 Inexact = Inexact"
| "js_max0 NaN = NaN"

record usage_totals =
  total_orgTotalTokensUsed :: jsnum
  total_totalAllowance :: jsnum
  total_tokensRemaining :: jsnum

record snapshot =
  update_time :: string
  total_count :: nat
  totals :: usage_totals
  data :: "usage_result list"

datatype error = NoCredentials string

text \<open>\<open>!r.error\<close>: the property is absent, or it is the empty string.\<close>

definition no_error :: "usage_result \<Rightarrow> bool" where
  "no_error r = (case res_error r of None \<Rightarrow> True | Some e \<Rightarrow> e = [])"

definition totals_init :: usage_totals where
  "totals_init = \<lparr> total_orgTotalTokensUsed = Exact 0, total_totalAllowance = Exact 0,
                   total_tokensRemaining = Exact 0 \<rparr>"

text \<open>The callback of \<open>validResults.reduce\<close>.\<close>

definition totals_step :: "usage_totals \<Rightarrow> usage_result \<Rightarrow> usage_totals" where
  "totals_step acc res =
     \<lparr> total_orgTotalTokensUsed =
         js_add (total_orgTotalTokensUsed acc) (exact_int (or0 (orgTotalTokensUsed res))),
       total_totalAllowance =
         js_add (total_totalAllowance acc) (exact_int (or0 (totalAllowance res))),
       total_tokensRemaining =
         js_add (total_tokensRemaining acc)
                (js_max0 (js_sub (to_number (totalAllowance res))
                                 (to_number (orgTotalTokensUsed res)))) \<rparr>"

definition validResults :: "usage_result list \<Rightarrow> usage_result list" where
  "validResults results = filter no_error results"

definition aggregate :: "usage_result list \<Rightarrow> usage_totals" where
  "aggregate results = foldl totals_step totals_init (validResults results)"

text \<open>
  \<open>(r.totalAllowance || 0) - (r.orgTotalTokensUsed || 0) > 0\<close>: the difference of two
  doubles is positive exactly when the first is the greater, rounded or not.
\<close>

definition keysWithBalance :: "usage_result list \<Rightarrow> usage_result list" where
  "keysWithBalance results =
     filter (\<lambda>r. or0 (totalAllowance r) - or0 (orgTotalTokensUsed r) > 0) (validResults results)"

text \<open>
  The two literals of the report that are not ASCII are given by their UTF-8 bytes; the
  first ends in \<open>API Keys:\<close>, the second is the notice that no key has balance left,
  between two line feeds.
\<close>

definition newline :: string where
  "newline = [CHR 0x0A]"

definition balance_header :: string where
  "balance_header =
    [CHR 0xF0, CHR 0x9F, CHR 0x93, CHR 0x8B, CHR 0x20, CHR 0xE5, CHR 0x89, CHR 0xA9,
     CHR 0xE4, CHR 0xBD, CHR 0x99, CHR 0xE9, CHR 0xA2, CHR 0x9D, CHR 0xE5, CHR 0xBA,
     CHR 0xA6, CHR 0xE5, CHR 0xA4, CHR 0xA7, CHR 0xE4, CHR 0xBA, CHR 0x8E, CHR 0x30,
     CHR 0xE7, CHR 0x9A, CHR 0x84, CHR 0x41, CHR 0x50, CHR 0x49, CHR 0x20, CHR 0x4B,
     CHR 0x65, CHR 0x79, CHR 0x73, CHR 0x3A]"

definition no_balance_notice :: string where
  "no_balance_notice =
    [CHR 0x0A, CHR 0xE2, CHR 0x9A, CHR 0xA0, CHR 0xEF, CHR 0xB8, CHR 0x8F, CHR 0x20,
     CHR 0x20, CHR 0xE6, CHR 0xB2, CHR 0xA1, CHR 0xE6, CHR 0x9C, CHR 0x89, CHR 0xE5,
     CHR 0x89, CHR 0xA9, CHR 0xE4, CHR 0xBD, CHR 0x99, CHR 0xE9, CHR 0xA2, CHR 0x9D,
     CHR 0xE5, CHR 0xBA, CHR 0xA6, CHR 0xE5, CHR 0xA4, CHR 0xA7, CHR 0xE4, CHR 0xBA,
     CHR 0x8E, CHR 0x30, CHR 0xE7, CHR 0x9A, CHR 0x84, CHR 0x41, CHR 0x50, CHR 0x49,
     CHR 0x20, CHR 0x4B, CHR 0x65, CHR 0x79, CHR 0x73, CHR 0x0A]"

text \<open>
  The body of \<open>keysWithBalance.forEach\<close>: the stored entry with the item's id is looked
  up and its \<open>key\<close> property is written to the log.
\<close>

definition log_original_key :: "apiKeyEntry list \<Rightarrow> usage_result \<Rightarrow> event list" where
  "log_original_key keyEntries item =
     (case find (\<lambda>e. entry_id e = res_id item) keyEntries of
        Some originalEntry \<Rightarrow> [ConsoleLog (entry_key originalEntry)]
      | None \<Rightarrow> [])"

definition balance_report :: "apiKeyEntry list \<Rightarrow> usage_result list \<Rightarrow> event list" where
  "balance_report keyEntries results =
     (if length (keysWithBalance results) > 0 then
        [ConsoleLog (newline @ replicate 80 CHR ''=''),
         ConsoleLog balance_header,
         ConsoleLog (replicate 80 CHR ''-'')]
        @ concat (map (log_original_key keyEntries) (keysWithBalance results))
        @ [ConsoleLog (replicate 80 CHR ''='' @ newline)]
      else [ConsoleLog no_balance_notice])"

text \<open>
  \<open>keyEntries.map(entry => fetchApiKeyData(entry.id, entry.key))\<close> calls the fetcher
  for every entry before anything is awaited, and each call runs up to its
  \<open>await fetch(...)\<close>: the requests the runtime does not refuse are all issued first.
  They then settle; the trace lists them in the order of the store.
\<close>

definition settle_entry :: "env \<Rightarrow> apiKeyEntry \<Rightarrow> usage_result \<times> event list" where
  "settle_entry E entry =
     fetchApiKeyData_settled E (entry_id entry) (entry_key entry) (upstream E (entry_key entry))"

definition fan_out :: "env \<Rightarrow> apiKeyEntry list \<Rightarrow> usage_result list \<times> event list" where
  "fan_out E keyEntries =
     (map (\<lambda>entry. fst (settle_entry E entry)) keyEntries,
      concat (map (\<lambda>entry. request_start E (entry_key entry)) keyEntries)
      @ concat (map (\<lambda>entry. request_end E (entry_key entry) @ snd (settle_entry E entry))
                 keyEntries))"

text \<open>
  What the page shows as an entry's own remainder (\<open>renderCards\<close> and the table view):
  \<open>item.totalAllowance - item.orgTotalTokensUsed\<close>, not clamped.
\<close>

definition item_remaining :: "usage_result \<Rightarrow> jsnum" where
  "item_remaining item = js_sub (to_number (totalAllowance item)) (to_number (orgTotalTokensUsed item))"

text \<open>
  \<open>keyEntries\<close> is what \<open>getAllApiKeys()\<close> returned.  The result is the thrown error or
  the snapshot, together with the trace of effects.
\<close>

definition getAggregatedData :: "env \<Rightarrow> apiKeyEntry list \<Rightarrow> (error + snapshot) \<times> event list" where
  "getAggregatedData E keyEntries =
     (if length keyEntries = 0 then
        (Inl (NoCredentials ''No API keys found in storage. Please import keys first.''), [])
      else
        let (results, evs) = fan_out E keyEntries;
            beijingTime = now E + 8 * 60 * 60 * 1000
        in (Inr \<lparr> update_time = format_time E beijingTime,
                  total_count = length keyEntries,
                  totals = aggregate results,
                  data = results \<rparr>,
            evs @ balance_report keyEntries results))"

text \<open>
  The number of requests in flight along a trace: the largest count, starting from
  \<open>n\<close>, of requests issued and not yet settled.
\<close>

fun peak_active :: "nat \<Rightarrow> event list \<Rightarrow> nat" where
  "peak_active n [] = n"
| "peak_active n (FetchStart k # es) = max n (peak_active (Suc n) es)"
| "peak_active n (FetchEnd k # es) = max n (peak_active (n - 1) es)"
| "peak_active n (ConsoleError s # es) = peak_active n es"
| "peak_active n (ConsoleLog s # es) = peak_active n es"

text \<open>Whether \<open>s\<close> occurs in \<open>t\<close> as a contiguous run of characters.\<close>

fun occurs_in :: "string \<Rightarrow> string \<Rightarrow> bool" where
  "occurs_in s [] = (s = [])"
| "occurs_in s (c # t) = (take (length s) (c # t) = s \<or> occurs_in s t)"

section \<open>Failure classes and sample data\<close>

datatype errorKind = InvalidCredential | TransportError | UpstreamHttpError | MalformedResponse

text \<open>
  The failures \<open>fetchApiKeyData\<close> itself tells apart, by the branch it takes: the call
  of \<open>fetch\<close> is rejected, the status is outside 200..299, or the body cannot be parsed
  or lacks \<open>usage\<close> or \<open>usage.standard\<close>.  \<open>None\<close>: the code takes the answer as
  usable.
\<close>

fun code_failure_kind :: "fetch_outcome \<Rightarrow> errorKind option" where
  "code_failure_kind (Refused msg) = Some TransportError"
| "code_failure_kind (Rejected msg) = Some TransportError"
| "code_failure_kind (Response st txt js) =
     (if \<not> response_ok st then Some UpstreamHttpError
      else case js of
             Inl msg \<Rightarrow> Some MalformedResponse
           | Inr d \<Rightarrow> (case ad_usage d of
                         None \<Rightarrow> Some MalformedResponse
                       | Some ui \<Rightarrow> (case ui_standard ui of
                                       None \<Rightarrow> Some MalformedResponse
                                     | Some su \<Rightarrow> None)))"

text \<open>
  The failures as the specification words them: an empty secret, or one that is never
  sent upstream, is an \<open>InvalidCredential\<close>; a failure to reach the provider is a
  \<open>TransportError\<close>; a status that is not a success is an \<open>UpstreamHttpError\<close>; and a
  success whose payload does not hold a used amount, a total allowance, a usage ratio and
  a usage period with start and end is a \<open>MalformedResponse\<close>.
\<close>

fun spec_failure_kind :: "string \<Rightarrow> fetch_outcome \<Rightarrow> errorKind option" where
  "spec_failure_kind secret (Refused msg) = Some InvalidCredential"
| "spec_failure_kind secret (Rejected msg) =
     (if secret = [] then Some InvalidCredential else Some TransportError)"
| "spec_failure_kind secret (Response st txt js) =
     (if secret = [] then Some InvalidCredential
      else if \<not> response_ok st then Some UpstreamHttpError
      else case js of
             Inl msg \<Rightarrow> Some MalformedResponse
           | Inr d \<Rightarrow>
               (case ad_usage d of
                  None \<Rightarrow> Some MalformedResponse
                | Some ui \<Rightarrow>
                    (case ui_standard ui of
                       None \<Rightarrow> Some MalformedResponse
                     | Some su \<Rightarrow>
                         if su_orgTotalTokensUsed su = None \<or> su_totalAllowance su = None
                            \<or> su_usedRatio su = None
                            \<or> ui_startDate ui = None \<or> ui_endDate ui = None
                         then Some MalformedResponse else None)))"

text \<open>The entries of what \<open>getAggregatedData\<close> returned; none when it threw.\<close>

definition entries_of :: "error + snapshot \<Rightarrow> usage_result list" where
  "entries_of r = (case r of Inl e \<Rightarrow> [] | Inr snap \<Rightarrow> data snap)"

text \<open>
  Sample data: a stored entry as \<open>saveApiKey\<close> writes it, an answer of the provider with
  usage data, and a provider that knows three keys with usage, one key with allowance
  zero, the empty key, a short key, a key it answers with \<open>{usage: {standard: {}}}\<close>
  and a revoked key, and is unreachable for any other; the runtime refuses a key with a
  line feed in it.
\<close>

definition mk_entry :: "string \<Rightarrow> string \<Rightarrow> apiKeyEntry" where
  "mk_entry i k = \<lparr> entry_id = i, entry_key = k, entry_name = Some (''Key '' @ i), createdAt = 0 \<rparr>"

definition usage_body :: "int option \<Rightarrow> int option \<Rightarrow> rat option \<Rightarrow> fetch_outcome" where
  "usage_body u a r = Response 200 (Inr []) (Inr (ApiData (Some (UsageInfo (Some 0) None (Some (StandardUsage u a r))))))"

definition demo_env :: env where
  "demo_env = \<lparr> upstream = (\<lambda>k.
        if k = ''fk-live-aaaabbbbcccc1111'' then usage_body (Some 50) (Some 100) (Some (1/2))
        else if k = ''fk-live-ddddeeeeffff2222'' then usage_body (Some 150) (Some 100) None
        else if k = ''fk-live-gggghhhhiiii3333'' then usage_body (Some 50) (Some 50) (Some 1)
        else if k = ''fk-zero-allowance'' then usage_body (Some 0) (Some 0) None
        else if k = [] then usage_body (Some 0) (Some 10) (Some 0)
        else if k = ''abc'' then usage_body (Some 1) (Some 2) None
        else if k = ''fk-revoked-000000004444'' then Response 401 (Inr ''Unauthorized'') (Inl ''Unexpected token'')
        else if k = ''fk-no-fields-0000006666'' then
          Response 200 (Inr []) (Inr (ApiData (Some (UsageInfo None None (Some (StandardUsage None None None))))))
        else if k = ''fk-line'' @ [CHR 0x0A] @ ''break'' then Refused ''Invalid header value''
        else Rejected ''connection reset''),
     now = 0, format_time = (\<lambda>t. show_nat (nat t)),
     toISODate = (\<lambda>t. if t = 0 then Some ''1970-01-01'' else None) \<rparr>"

section \<open>Well-formed results and sample data\<close>

text \<open>
  A result as the data model describes it: an error entry has a message, a successful
  entry has numbers, not below zero, for the tokens used and the allowance.
  \<open>ok_pairs\<close> lists the (allowance, used) pairs of the successful entries, in order.
\<close>

fun well_formed :: "usage_result \<Rightarrow> bool" where
  "well_formed (ErrResult i k e) = (e \<noteq> [])"
| "well_formed (OkResult i k sd ed (Some u) (Some a) r) = (0 \<le> u \<and> 0 \<le> a)"
| "well_formed (OkResult i k sd ed u a r) = False"

fun ok_pairs :: "usage_result list \<Rightarrow> (int \<times> int) list" where
  "ok_pairs [] = []"
| "ok_pairs (OkResult i k sd ed (Some u) (Some a) r # rs) = (a, u) # ok_pairs rs"
| "ok_pairs (other # rs) = ok_pairs rs"

definition three_key_store :: "apiKeyEntry list" where
  "three_key_store = [mk_entry ''key-1'' ''fk-live-aaaabbbbcccc1111'',
                      mk_entry ''key-2'' ''fk-live-ddddeeeeffff2222'',
                      mk_entry ''key-3'' ''fk-live-gggghhhhiiii3333'']"

definition three_key_snapshot :: snapshot where
  "three_key_snapshot = \<lparr> update_time = ''28800000'', total_count = 3,
      totals = \<lparr> total_orgTotalTokensUsed = Exact 250, total_totalAllowance = Exact 250,
                 total_tokensRemaining = Exact 50 \<rparr>,
      data = [OkResult ''key-1'' ''fk-l...1111'' ''1970-01-01'' ''N/A'' (Some 50) (Some 100) (Some (1/2)),
              OkResult ''key-2'' ''fk-l...2222'' ''1970-01-01'' ''N/A'' (Some 150) (Some 100) None,
              OkResult ''key-3'' ''fk-l...3333'' ''1970-01-01'' ''N/A'' (Some 50) (Some 50) (Some 1)] \<rparr>"

definition sample_store :: "apiKeyEntry list" where
  "sample_store = [mk_entry ''key-1'' ''fk-live-aaaabbbbcccc1111'',
                   mk_entry ''key-2'' ''fk-revoked-000000004444'',
                   mk_entry ''key-3'' ''fk-unreachable-00005555'']"

definition sample_snapshot :: snapshot where
  "sample_snapshot = \<lparr> update_time = ''28800000'', total_count = 3,
      totals = \<lparr> total_orgTotalTokensUsed = Exact 50, total_totalAllowance = Exact 100,
                 total_tokensRemaining = Exact 50 \<rparr>,
      data = [OkResult ''key-1'' ''fk-l...1111'' ''1970-01-01'' ''N/A'' (Some 50) (Some 100) (Some (1/2)),
              ErrResult ''key-2'' ''fk-r...'' ''HTTP 401'',
              ErrResult ''key-3'' ''fk-u...'' ''Failed to fetch''] \<rparr>"

text \<open>The fixed lines of the balance report.\<close>

definition banner_lines :: "string set" where
  "banner_lines = {newline @ replicate 80 CHR ''='', balance_header, replicate 80 CHR ''-'',
                   replicate 80 CHR ''='' @ newline, no_balance_notice}"

definition one_key_store :: "apiKeyEntry list" where
  "one_key_store = [mk_entry ''key-1'' ''fk-live-aaaabbbbcccc1111'']"

section \<open>ConcurrentTaskRunner\<close>

text \<open>
  A task is an asynchronous function, as the \<open>async\<close> arrow functions the callers pass:
  calling it starts it and returns a promise.  The task is modelled by what that promise
  does: it fulfils with a value, it rejects, or it never settles.  A rejection carries what
  the \<open>catch\<close> block reads from the thrown value, \<open>error.message\<close>: \<open>Rejects (Some m)\<close>
  when that read yields \<open>m\<close> (for a thrown value without such a property \<open>m\<close> is
  \<open>undefined\<close>), and \<open>Rejects None\<close> when the thrown value is \<open>null\<close> or \<open>undefined\<close>,
  where the read itself throws a \<open>TypeError\<close> inside the \<open>catch\<close> block.
\<close>

datatype ('a, 'm) settle = Fulfils 'a | Rejects "'m option" | Never

text \<open>An element of \<open>results\<close>: the value of a task, or the object \<open>{ error: m }\<close>.\<close>

datatype ('a, 'm) slot = Result 'a | ErrorPlaceholder 'm

text \<open>
  One of the promises in \<open>workers\<close>, a chain of nested \<open>executeNext\<close> calls.  It is
  either suspended at \<open>await task()\<close> for the task with the given index, or it has
  returned.  The flag tells whether a \<open>catch\<close> block of the chain has thrown: the
  \<open>finally\<close> blocks still run, and the promise rejects when the chain returns.
\<close>

datatype worker = Busy nat bool | Finished bool

text \<open>
  The variables the workers of one \<open>run\<close> call write: the cursor \<open>index\<close> and the
  array \<open>results\<close>, local to the call, whose unassigned positions are holes
  (\<open>None\<close>); and the counter \<open>this.running\<close>, a field of the runner object, which
  every \<open>run\<close> call on that runner increments and decrements and nothing reads.
\<close>

record ('a, 'm) run_state =
  index :: nat
  running :: int
  results :: "('a, 'm) slot option list"

type_synonym ('a, 'm) config = "worker list \<times> ('a, 'm) run_state"

text \<open>\<open>xs[i] = v\<close> on a JavaScript array: an index past the end extends it with holes.\<close>

definition array_set :: "'x option list \<Rightarrow> nat \<Rightarrow> 'x \<Rightarrow> 'x option list" where
  "array_set xs i v =
     (if i < length xs then xs[i := Some v]
      else xs @ replicate (i - length xs) None @ [Some v])"

definition array_get :: "'x option list \<Rightarrow> nat \<Rightarrow> 'x option" where
  "array_get xs i = (if i < length xs then xs ! i else None)"

text \<open>
  \<open>executeNext\<close> up to its \<open>await\<close>: it returns at once when the cursor is past the
  list; otherwise it claims the index under the cursor, counts itself as running and
  starts the task.  JavaScript runs this without interruption.
\<close>

definition executeNext ::
    "('a, 'm) settle list \<Rightarrow> bool \<Rightarrow> ('a, 'm) run_state \<Rightarrow> worker \<times> ('a, 'm) run_state" where
  "executeNext tasks failed s =
     (if index s \<ge> length tasks then (Finished failed, s)
      else (Busy (index s) failed, s\<lparr>index := index s + 1, running := running s + 1\<rparr>))"

text \<open>
  What runs when the awaited task settles: the \<open>try\<close> block stores the value, or the
  \<open>catch\<close> block stores the placeholder (or throws, for \<open>Rejects None\<close>); the
  \<open>finally\<close> block then decrements the counter and calls \<open>executeNext\<close> again.
\<close>

definition resume ::
    "('a, 'm) settle list \<Rightarrow> nat \<Rightarrow> bool \<Rightarrow> ('a, 'm) run_state \<Rightarrow> worker \<times> ('a, 'm) run_state" where
  "resume tasks currentIndex failed s =
     (let (s1, failed1) =
            (case tasks ! currentIndex of
               Fulfils v \<Rightarrow>
                 (s\<lparr>results := array_set (results s) currentIndex (Result v)\<rparr>, failed)
             | Rejects (Some m) \<Rightarrow>
                 (s\<lparr>results := array_set (results s) currentIndex (ErrorPlaceholder m)\<rparr>, failed)
             | Rejects None \<Rightarrow> (s, True)
             | Never \<Rightarrow> (s, failed));
          s2 = s1\<lparr>running := running s1 - 1\<rparr>
      in executeNext tasks failed1 s2)"

text \<open>
  \<open>Array(Math.min(this.concurrency, tasks.length)).fill(null).map(() => executeNext())\<close>:
  the workers are started one after the other, each up to its first \<open>await\<close>.
\<close>

fun spawn ::
    "('a, 'm) settle list \<Rightarrow> nat \<Rightarrow> ('a, 'm) run_state \<Rightarrow> worker list \<times> ('a, 'm) run_state" where
  "spawn tasks 0 s = ([], s)"
| "spawn tasks (Suc n) s =
     (let (w, s1) = executeNext tasks False s;
          (ws, s2) = spawn tasks n s1
      in (w # ws, s2))"

text \<open>
  The configuration in which \<open>run\<close> reaches \<open>await Promise.all(workers)\<close>, for a runner
  whose counter stands at \<open>running0\<close> when \<open>run\<close> is called: the constructor sets it
  to zero, and \<open>run\<close> never resets it.
\<close>

definition run_start :: "int \<Rightarrow> nat \<Rightarrow> ('a, 'm) settle list \<Rightarrow> ('a, 'm) config" where
  "run_start running0 concurrency tasks =
     spawn tasks (min concurrency (length tasks))
       \<lparr>index = 0, running = running0, results = []\<rparr>"

fun settles :: "('a, 'm) settle \<Rightarrow> bool" where
  "settles Never = False"
| "settles _ = True"

text \<open>
  One step of a run: the task some worker awaits settles, and that worker runs on to its
  next \<open>await\<close> or to its end.  Which worker it is, is not determined: the relation
  covers every order in which the tasks may complete.
\<close>

inductive step :: "('a, 'm) settle list \<Rightarrow> ('a, 'm) config \<Rightarrow> ('a, 'm) config \<Rightarrow> bool"
  for tasks :: "('a, 'm) settle list" where
  settle:
    "w < length ws \<Longrightarrow> ws ! w = Busy i failed \<Longrightarrow> i < length tasks \<Longrightarrow> settles (tasks ! i) \<Longrightarrow>
     resume tasks i failed s = (wk, s') \<Longrightarrow>
     step tasks (ws, s) (ws[w := wk], s')"

text \<open>
  What \<open>run\<close> has done in a configuration: \<open>Promise.all\<close> rejects as soon as one worker
  has rejected, and \<open>run\<close> throws; it fulfils when all workers have returned, and \<open>run\<close>
  returns \<open>results\<close>; until then \<open>run\<close> is suspended (\<open>None\<close>).
\<close>

text \<open>
  A run seen together with the other \<open>run\<close> calls on the same runner (the page starts
  \<open>preloadKeysToCache\<close> without awaiting it, and \<open>batchCopyKeys\<close> uses the same
  \<open>taskRunner\<close>): between two steps of this run the others may move the shared counter
  to any value; they touch neither this run's cursor nor its results nor its workers.
\<close>

inductive interleaved :: "('a, 'm) settle list \<Rightarrow> ('a, 'm) config \<Rightarrow> ('a, 'm) config \<Rightarrow> bool"
  for tasks :: "('a, 'm) settle list" where
  own: "step tasks c c' \<Longrightarrow> interleaved tasks c c'"
| other: "interleaved tasks (ws, s) (ws, s\<lparr>running := r\<rparr>)"

datatype ('a, 'm) run_outcome = Returns "('a, 'm) slot option list" | ThrowsTypeError

definition run_result :: "('a, 'm) config \<Rightarrow> ('a, 'm) run_outcome option" where
  "run_result c =
     (case c of (ws, s) \<Rightarrow>
        if Finished True \<in> set ws then Some ThrowsTypeError
        else if list_all (\<lambda>w. w = Finished False) ws then Some (Returns (results s))
        else None)"

fun is_Busy :: "worker \<Rightarrow> bool" where
  "is_Busy (Busy i f) = True"
| "is_Busy (Finished f) = False"

text \<open>The number of tasks that have been started and have not settled.\<close>

definition active :: "worker list \<Rightarrow> nat" where
  "active ws = length (filter is_Busy ws)"

text \<open>
  The step relation as a function of the worker whose task settles, and a run along a
  list of such picks; \<open>None\<close> when a pick names a worker that awaits nothing.
\<close>

fun fire :: "('a, 'm) settle list \<Rightarrow> nat \<Rightarrow> ('a, 'm) config \<Rightarrow> ('a, 'm) config option" where
  "fire tasks w (ws, s) =
     (if w < length ws then
        (case ws ! w of
           Busy i failed \<Rightarrow>
             if i < length tasks \<and> settles (tasks ! i)
             then (case resume tasks i failed s of (wk, s') \<Rightarrow> Some (ws[w := wk], s'))
             else None
         | Finished failed \<Rightarrow> None)
      else None)"

fun run_picks ::
    "('a, 'm) settle list \<Rightarrow> nat list \<Rightarrow> ('a, 'm) config \<Rightarrow> ('a, 'm) config option" where
  "run_picks tasks [] c = Some c"
| "run_picks tasks (w # picks) c =
     (case fire tasks w c of Some c' \<Rightarrow> run_picks tasks picks c' | None \<Rightarrow> None)"

text \<open>
  The element a task leaves in \<open>results\<close>: its value, or the placeholder with its
  message; a hole for a task that stores nothing.
\<close>

fun expected_slot :: "('a, 'm) settle \<Rightarrow> ('a, 'm) slot option" where
  "expected_slot (Fulfils v) = Some (Result v)"
| "expected_slot (Rejects (Some m)) = Some (ErrorPlaceholder m)"
| "expected_slot (Rejects None) = None"
| "expected_slot Never = None"

text \<open>
  A task that settles, with a value or with a rejection whose message can be read.
\<close>

fun well_behaved :: "('a, 'm) settle \<Rightarrow> bool" where
  "well_behaved (Fulfils v) = True"
| "well_behaved (Rejects (Some m)) = True"
| "well_behaved (Rejects None) = False"
| "well_behaved Never = False"

text \<open>\<open>const taskRunner = new ConcurrentTaskRunner(8)\<close>.\<close>

definition taskRunner_concurrency :: nat where
  "taskRunner_concurrency = 8"

subsection \<open>Invariants of a run\<close>

text \<open>The number of workers is fixed when they are started.\<close>

definition ceiling_inv :: "nat \<Rightarrow> ('a, 'm) settle list \<Rightarrow> ('a, 'm) config \<Rightarrow> bool" where
  "ceiling_inv K tasks c = (case c of (ws, s) \<Rightarrow> length ws = min K (length tasks))"

text \<open>
  After \<open>n\<close> steps of a run over well-behaved tasks: the cursor has passed the \<open>n\<close>
  settled tasks and the ones being awaited; no two workers await the same task; a worker
  has returned only once the cursor is past the list; and \<open>results\<close> holds exactly the
  elements of the settled tasks, each at the index of its task.
\<close>

definition order_inv :: "('a, 'm) settle list \<Rightarrow> nat \<Rightarrow> ('a, 'm) config \<Rightarrow> bool" where
  "order_inv tasks n c =
     (case c of (ws, s) \<Rightarrow>
        index s \<le> length tasks
      \<and> index s = n + active ws
      \<and> (\<forall>w<length ws. \<forall>i f. ws ! w = Busy i f \<longrightarrow> i < index s \<and> \<not> f)
      \<and> (\<forall>w<length ws. \<forall>w'<length ws. \<forall>i.
            ws ! w = Busy i False \<and> ws ! w' = Busy i False \<longrightarrow> w = w')
      \<and> (\<forall>w<length ws. \<forall>f. ws ! w = Finished f \<longrightarrow> index s = length tasks \<and> \<not> f)
      \<and> length (results s) \<le> index s
      \<and> (\<forall>i<length tasks.
            array_get (results s) i =
              (if i < index s \<and> (\<forall>w<length ws. ws ! w \<noteq> Busy i False)
               then expected_slot (tasks ! i) else None)))"

subsection \<open>Sample runs\<close>

definition demo_tasks :: "(nat, string) settle list" where
  "demo_tasks = [Fulfils 10, Rejects (Some ''boom''), Fulfils 30]"

definition demo_final :: "(nat, string) config" where
  "demo_final = ([Finished False, Finished False],
                 \<lparr>index = 3, running = 0,
                    results = [Some (Result 10), Some (ErrorPlaceholder ''boom''), Some (Result 30)]\<rparr>)"

definition demo_middle :: "(nat, string) config" where
  "demo_middle = ([Busy 0 False, Busy 2 False],
                  \<lparr>index = 3, running = 2,
                     results = [None, Some (ErrorPlaceholder ''boom'')]\<rparr>)"

definition nullish_tasks :: "(nat, string) settle list" where
  "nullish_tasks = [Fulfils 10, Rejects None, Fulfils 30]"

definition nullish_final :: "(nat, string) config" where
  "nullish_final = ([Finished False, Finished True],
                    \<lparr>index = 3, running = 0,
                       results = [Some (Result 10), None, Some (Result 30)]\<rparr>)"

definition nine_key_store :: "apiKeyEntry list" where
  "nine_key_store =
     map (\<lambda>n. mk_entry (''key-'' @ show_nat n) ''fk-unreachable-00005555'') [1..<10]"

section \<open>Properties of the usage fetcher and the snapshot assembly\<close>

lemma show_nat_digit: "n < 10 \<Longrightarrow> show_nat n = [digit_char n]"
  by (simp add: show_nat.simps)

lemma show_nat_more: "\<not> n < 10 \<Longrightarrow> show_nat n = show_nat (n div 10) @ [digit_char (n mod 10)]"
  by (subst show_nat.simps) simp

lemmas eval_defs =
  getAggregatedData_def fan_out_def settle_entry_def mk_entry_def demo_env_def usage_body_def
  fetchApiKeyData_def fetchApiKeyData_settled_def request_start_def request_end_def
  response_ok_def aggregate_def validResults_def keysWithBalance_def no_error_def
  totals_step_def totals_init_def or0_def to_number_def exact_int_def item_remaining_def
  entries_of_def formatDate_def errorMask_def maskedKey_def substring_def substring_from_def
  show_nat_digit show_nat_more digit_char_def balance_report_def log_original_key_def Let_def

lemma fst_fetchApiKeyData:
  "fst (fetchApiKeyData E ident key) = fst (fetchApiKeyData_settled E ident key (upstream E key))"
  by (simp add: fetchApiKeyData_def split: prod.splits)

lemma settled_failure:
  "code_failure_kind outcome \<noteq> None \<Longrightarrow>
     \<exists>e. e \<noteq> [] \<and> fst (fetchApiKeyData_settled E ident key outcome) = ErrResult ident (errorMask key) e"
  by (cases outcome)
     (auto simp: fetchApiKeyData_settled_def split: sum.splits option.splits if_splits)

lemma settled_success:
  "code_failure_kind outcome = None \<Longrightarrow>
     \<exists>sd ed u a r. fst (fetchApiKeyData_settled E ident key outcome) = OkResult ident (maskedKey key) sd ed u a r"
  by (cases outcome)
     (auto simp: fetchApiKeyData_settled_def split: sum.splits option.splits if_splits)

lemma fst_fan_out:
  "fst (fan_out E keyEntries) =
     map (\<lambda>entry. fst (fetchApiKeyData E (entry_id entry) (entry_key entry))) keyEntries"
  by (simp add: fan_out_def settle_entry_def fst_fetchApiKeyData)

lemma getAggregatedData_nonempty:
  "keyEntries \<noteq> [] \<Longrightarrow>
     fst (getAggregatedData E keyEntries) =
       Inr \<lparr> update_time = format_time E (now E + 8 * 60 * 60 * 1000),
             total_count = length keyEntries,
             totals = aggregate (fst (fan_out E keyEntries)),
             data = fst (fan_out E keyEntries) \<rparr>"
  by (simp add: getAggregatedData_def Let_def split: prod.splits)

lemma getAggregatedData_trace:
  "keyEntries \<noteq> [] \<Longrightarrow>
     snd (getAggregatedData E keyEntries) =
       snd (fan_out E keyEntries) @ balance_report keyEntries (fst (fan_out E keyEntries))"
  by (simp add: getAggregatedData_def Let_def split: prod.splits)

text \<open>
  C1, as the code has it.  The snapshot assembly fails, with \<open>NoCredentials\<close>, exactly
  when the store lists no credential, and then it has no effect at all: no request is
  issued.  For a store that lists at least one credential nothing is thrown: it returns a
  snapshot with one entry per credential, where a credential has an error entry, with
  its id, exactly when the call of \<open>fetch\<close> was rejected, the status was outside
  200..299, or the body could not be parsed or lacked \<open>usage\<close> or \<open>usage.standard\<close>,
  and a successful entry otherwise.
\<close>

theorem getAggregatedData_failure_policy:
  "(fst (getAggregatedData E keyEntries) =
      Inl (NoCredentials ''No API keys found in storage. Please import keys first.'')
      \<longleftrightarrow> keyEntries = [])
   \<and> ((\<exists>e. fst (getAggregatedData E keyEntries) = Inl e) \<longleftrightarrow> keyEntries = [])
   \<and> (keyEntries = [] \<longrightarrow> snd (getAggregatedData E keyEntries) = [])
   \<and> (keyEntries \<noteq> [] \<longrightarrow>
        (\<exists>snap. fst (getAggregatedData E keyEntries) = Inr snap
           \<and> length (data snap) = length keyEntries
           \<and> (\<forall>i < length keyEntries.
                 (code_failure_kind (upstream E (entry_key (keyEntries ! i))) \<noteq> None \<longrightarrow>
                    (\<exists>m e. data snap ! i = ErrResult (entry_id (keyEntries ! i)) m e))
               \<and> (code_failure_kind (upstream E (entry_key (keyEntries ! i))) = None \<longrightarrow>
                    is_ok (data snap ! i) \<and> res_id (data snap ! i) = entry_id (keyEntries ! i)))))"
proof (cases "keyEntries = []")
  case True
  then show ?thesis by (simp add: getAggregatedData_def)
next
  case False
  have "\<exists>m e. fst (fan_out E keyEntries) ! i = ErrResult (entry_id (keyEntries ! i)) m e"
    if "i < length keyEntries"
      and "code_failure_kind (upstream E (entry_key (keyEntries ! i))) \<noteq> None" for i
    using that settled_failure [of "upstream E (entry_key (keyEntries ! i))" E
        "entry_id (keyEntries ! i)" "entry_key (keyEntries ! i)"]
    by (auto simp: fst_fan_out fst_fetchApiKeyData)
  moreover have "is_ok (fst (fan_out E keyEntries) ! i)
      \<and> res_id (fst (fan_out E keyEntries) ! i) = entry_id (keyEntries ! i)"
    if "i < length keyEntries"
      and "code_failure_kind (upstream E (entry_key (keyEntries ! i))) = None" for i
    using that settled_success [of "upstream E (entry_key (keyEntries ! i))" E
        "entry_id (keyEntries ! i)" "entry_key (keyEntries ! i)"]
    by (auto simp: fst_fan_out fst_fetchApiKeyData)
  moreover have "length (fst (fan_out E keyEntries)) = length keyEntries"
    by (simp add: fst_fan_out)
  ultimately show ?thesis
    using False by (simp add: getAggregatedData_nonempty)
qed

text \<open>
  The empty store, and a store of three keys of which the second is revoked and the
  third cannot be reached.
\<close>

theorem getAggregatedData_failure_policy_witness:
  "fst (getAggregatedData demo_env []) =
      Inl (NoCredentials ''No API keys found in storage. Please import keys first.'')
   \<and> snd (getAggregatedData demo_env []) = []
   \<and> (\<exists>snap. fst (getAggregatedData demo_env sample_store) = Inr snap
        \<and> length (data snap) = 3
        \<and> is_ok (data snap ! 0)
        \<and> (\<exists>m e. data snap ! 1 = ErrResult ''key-2'' m e)
        \<and> (\<exists>m e. data snap ! 2 = ErrResult ''key-3'' m e))"
proof -
  let ?ks = "sample_store"
  have l: "length ?ks = 3" by (simp add: sample_store_def)
  have f0: "code_failure_kind (upstream demo_env (entry_key (?ks ! 0))) = None"
    by (simp add: demo_env_def mk_entry_def sample_store_def usage_body_def response_ok_def)
  have f1: "code_failure_kind (upstream demo_env (entry_key (?ks ! 1))) \<noteq> None"
    by (simp add: demo_env_def mk_entry_def sample_store_def response_ok_def)
  have f2: "code_failure_kind (upstream demo_env (entry_key (?ks ! 2))) \<noteq> None"
    by (simp add: demo_env_def mk_entry_def sample_store_def)
  have ne: "?ks \<noteq> []" by (simp add: sample_store_def)
  from getAggregatedData_failure_policy [of demo_env ?ks] ne
  obtain snap where s: "fst (getAggregatedData demo_env ?ks) = Inr snap"
      "length (data snap) = length ?ks"
      "\<forall>i < length ?ks.
         (code_failure_kind (upstream demo_env (entry_key (?ks ! i))) \<noteq> None \<longrightarrow>
            (\<exists>m e. data snap ! i = ErrResult (entry_id (?ks ! i)) m e))
       \<and> (code_failure_kind (upstream demo_env (entry_key (?ks ! i))) = None \<longrightarrow>
            is_ok (data snap ! i) \<and> res_id (data snap ! i) = entry_id (?ks ! i))"
    by blast
  from s(3) l f0 have "is_ok (data snap ! 0)" by simp
  moreover from s(3) l f1 have "\<exists>m e. data snap ! 1 = ErrResult (entry_id (?ks ! 1)) m e"
    by simp
  then have "\<exists>m e. data snap ! 1 = ErrResult ''key-2'' m e"
    by (simp add: mk_entry_def sample_store_def)
  moreover from s(3) l f2 have "\<exists>m e. data snap ! 2 = ErrResult (entry_id (?ks ! 2)) m e"
    by simp
  then have "\<exists>m e. data snap ! 2 = ErrResult ''key-3'' m e"
    by (simp add: mk_entry_def sample_store_def)
  moreover have "fst (getAggregatedData demo_env []) =
      Inl (NoCredentials ''No API keys found in storage. Please import keys first.'')
   \<and> snd (getAggregatedData demo_env []) = []"
    using getAggregatedData_failure_policy [of demo_env "[]"] by simp
  ultimately show ?thesis using s(1,2) l by auto
qed

text \<open>
  Against C1 as stated: a credential that the provider answers with
  \<open>{usage: {standard: {}}}\<close>, a malformed response in the specification's words, and
  a credential with an empty secret, an invalid credential in its words, each have a
  successful entry in the snapshot, not an error entry.
\<close>

theorem spec_failures_returned_as_ok:
  "spec_failure_kind ''fk-no-fields-0000006666'' (upstream demo_env ''fk-no-fields-0000006666'')
     = Some MalformedResponse
   \<and> entries_of (fst (getAggregatedData demo_env [mk_entry ''key-6'' ''fk-no-fields-0000006666'']))
     = [OkResult ''key-6'' ''fk-n...6666'' ''N/A'' ''N/A'' None None None]
   \<and> spec_failure_kind [] (upstream demo_env []) = Some InvalidCredential
   \<and> entries_of (fst (getAggregatedData demo_env [mk_entry ''key-9'' []]))
     = [OkResult ''key-9'' ''...'' ''1970-01-01'' ''N/A'' (Some 0) (Some 10) (Some 0)]"
  by (simp add: eval_defs)

lemma ok_pairs_nonneg:
  "\<forall>r \<in> set rs. well_formed r \<Longrightarrow> (a, u) \<in> set (ok_pairs rs) \<Longrightarrow> 0 \<le> a \<and> 0 \<le> u"
  by (induction rs rule: ok_pairs.induct) auto

lemma sum_list_nonneg_int: "(\<And>x. x \<in> set xs \<Longrightarrow> (0::int) \<le> f x) \<Longrightarrow> 0 \<le> sum_list (map f xs)"
  by (induction xs) auto

lemma member_le_sum_int:
  "(\<And>x. x \<in> set xs \<Longrightarrow> (0::int) \<le> f x) \<Longrightarrow> y \<in> set xs \<Longrightarrow> f y \<le> sum_list (map f xs)"
proof (induction xs)
  case Nil
  then show ?case by simp
next
  case (Cons x xs)
  have "0 \<le> f x" by (rule Cons.prems(1)) simp
  moreover have "0 \<le> sum_list (map f xs)"
    by (rule sum_list_nonneg_int) (simp add: Cons.prems(1))
  moreover have "f y \<le> sum_list (map f xs)" if "y \<in> set xs"
    using that Cons by simp
  ultimately show ?case using Cons.prems(2) by auto
qed

lemma sum_allowance_nonneg:
  "\<forall>r \<in> set rs. well_formed r \<Longrightarrow> 0 \<le> (\<Sum>(a, u) \<leftarrow> ok_pairs rs. a)"
  by (rule sum_list_nonneg_int) (auto dest: ok_pairs_nonneg)

lemma sum_used_nonneg:
  "\<forall>r \<in> set rs. well_formed r \<Longrightarrow> 0 \<le> (\<Sum>(a, u) \<leftarrow> ok_pairs rs. u)"
  by (rule sum_list_nonneg_int) (auto dest: ok_pairs_nonneg)

lemma sum_remaining_nonneg: "0 \<le> (\<Sum>(a, u) \<leftarrow> ok_pairs rs. max (a - u) 0)"
  by (rule sum_list_nonneg_int) auto

lemma sum_remaining_le_allowance:
  "\<forall>r \<in> set rs. well_formed r \<Longrightarrow>
     (\<Sum>(a, u) \<leftarrow> ok_pairs rs. max (a - u) 0) \<le> (\<Sum>(a, u) \<leftarrow> ok_pairs rs. a)"
  by (rule sum_list_mono) (auto dest: ok_pairs_nonneg)

lemma js_sub_safe:
  assumes "0 \<le> a" "a \<le> 2 ^ 53" "0 \<le> u" "u \<le> 2 ^ 53"
  shows "js_sub (to_number (Some a)) (to_number (Some u)) = Exact (a - u)"
proof -
  have "\<bar>a - u\<bar> \<le> 2 ^ 53" using assms by simp
  with assms show ?thesis by (simp add: to_number_def exact_int_def)
qed

text \<open>The fold, from any exact accumulator, as long as the sums stay within \<open>2^53\<close>.\<close>

lemma foldl_totals_step:
  assumes "\<forall>r \<in> set rs. well_formed r"
    and "0 \<le> x" "0 \<le> y" "0 \<le> z"
    and "x + (\<Sum>(a, u) \<leftarrow> ok_pairs rs. u) \<le> 2 ^ 53"
    and "y + (\<Sum>(a, u) \<leftarrow> ok_pairs rs. a) \<le> 2 ^ 53"
    and "z + (\<Sum>(a, u) \<leftarrow> ok_pairs rs. max (a - u) 0) \<le> 2 ^ 53"
  shows "foldl totals_step
           \<lparr> total_orgTotalTokensUsed = Exact x, total_totalAllowance = Exact y,
             total_tokensRemaining = Exact z \<rparr> (filter no_error rs) =
           \<lparr> total_orgTotalTokensUsed = Exact (x + (\<Sum>(a, u) \<leftarrow> ok_pairs rs. u)),
             total_totalAllowance = Exact (y + (\<Sum>(a, u) \<leftarrow> ok_pairs rs. a)),
             total_tokensRemaining = Exact (z + (\<Sum>(a, u) \<leftarrow> ok_pairs rs. max (a - u) 0)) \<rparr>"
  using assms
proof (induction rs arbitrary: x y z)
  case Nil
  then show ?case by simp
next
  case (Cons r rs)
  show ?case
  proof (cases r)
    case (ErrResult i k e)
    with Cons.prems have "\<not> no_error r" by (simp add: no_error_def)
    with Cons ErrResult show ?thesis by simp
  next
    case (OkResult i k sd ed uo ao ratio)
    with Cons.prems(1) obtain u a where ua: "uo = Some u" "ao = Some a" and nn: "0 \<le> u" "0 \<le> a"
      by (cases uo; cases ao) auto
    have wf: "\<forall>r \<in> set rs. well_formed r" using Cons.prems(1) by simp
    note su = sum_used_nonneg [OF wf] and sa = sum_allowance_nonneg [OF wf]
      and sr = sum_remaining_nonneg [of rs]
    have ne: "no_error r" using OkResult by (simp add: no_error_def)
    have pairs: "ok_pairs (r # rs) = (a, u) # ok_pairs rs" using OkResult ua by simp
    from Cons.prems(5,6,7) have
      bu: "x + u + (\<Sum>(a, u) \<leftarrow> ok_pairs rs. u) \<le> 2 ^ 53" and
      ba: "y + a + (\<Sum>(a, u) \<leftarrow> ok_pairs rs. a) \<le> 2 ^ 53" and
      br: "z + max (a - u) 0 + (\<Sum>(a, u) \<leftarrow> ok_pairs rs. max (a - u) 0) \<le> 2 ^ 53"
      unfolding pairs by simp_all
    have u53: "u \<le> 2 ^ 53" using bu su Cons.prems(2) nn by linarith
    have a53: "a \<le> 2 ^ 53" using ba sa Cons.prems(3) nn by linarith
    have e1: "js_add (Exact x) (exact_int u) = Exact (x + u)"
      using bu su Cons.prems(2) nn u53 by (simp add: exact_int_def)
    have e2: "js_add (Exact y) (exact_int a) = Exact (y + a)"
      using ba sa Cons.prems(3) nn a53 by (simp add: exact_int_def)
    have e3: "js_add (Exact z) (js_max0 (js_sub (to_number (Some a)) (to_number (Some u))))
                = Exact (z + max (a - u) 0)"
      using br sr Cons.prems(4) js_sub_safe [OF nn(2) a53 nn(1) u53] by (simp add: exact_int_def)
    have step: "totals_step \<lparr> total_orgTotalTokensUsed = Exact x, total_totalAllowance = Exact y,
                  total_tokensRemaining = Exact z \<rparr> r
              = \<lparr> total_orgTotalTokensUsed = Exact (x + u), total_totalAllowance = Exact (y + a),
                  total_tokensRemaining = Exact (z + max (a - u) 0) \<rparr>"
      using OkResult ua e1 e2 e3 by (simp add: totals_step_def or0_def)
    have "0 \<le> x + u" "0 \<le> y + a" "0 \<le> z + max (a - u) 0"
      using Cons.prems(2,3,4) nn by simp_all
    from Cons.IH [OF wf this bu ba br] show ?thesis
      using ne step pairs by (simp add: add.assoc)
  qed
qed

lemma snapshot_totals:
  "fst (getAggregatedData E keyEntries) = Inr snap \<Longrightarrow> totals snap = aggregate (data snap)"
  by (cases "keyEntries = []") (auto simp: getAggregatedData_def Let_def split: prod.splits)

lemma fetch_result_well_formed_err:
  "res_error (fst (fetchApiKeyData E ident key)) = Some e \<Longrightarrow> e \<noteq> []"
  using settled_failure [of "upstream E key" E ident key] settled_success [of "upstream E key" E ident key]
  by (cases "code_failure_kind (upstream E key)") (auto simp: fst_fetchApiKeyData)

lemma three_key_snapshot_eq:
  "fst (getAggregatedData demo_env three_key_store) = Inr three_key_snapshot"
  by (simp add: eval_defs three_key_store_def three_key_snapshot_def)

text \<open>
  C4.  Over any sequence of results whose successful entries carry numbers not below
  zero (and whose error entries carry a message), with sums of allowance and of tokens
  used within \<open>2^53\<close>, where the code's arithmetic on doubles is exact: the totals are
  sums over the successful entries only, of the allowance, of the tokens used, and of the
  remainder \<open>max (allowance - used) 0\<close>, clamped entry by entry before it is added; the
  entry itself is left as it is, so that its own remainder \<open>allowance - used\<close> shows
  unclamped; and the totals of a snapshot are these totals of its entries.
\<close>

theorem aggregate_totals:
  assumes "\<forall>r \<in> set rs. well_formed r"
    and "(\<Sum>(a, u) \<leftarrow> ok_pairs rs. a) \<le> 2 ^ 53"
    and "(\<Sum>(a, u) \<leftarrow> ok_pairs rs. u) \<le> 2 ^ 53"
  shows "total_totalAllowance (aggregate rs) = Exact (\<Sum>(a, u) \<leftarrow> ok_pairs rs. a)
       \<and> total_orgTotalTokensUsed (aggregate rs) = Exact (\<Sum>(a, u) \<leftarrow> ok_pairs rs. u)
       \<and> total_tokensRemaining (aggregate rs)
            = Exact (\<Sum>(a, u) \<leftarrow> ok_pairs rs. max (a - u) 0)
       \<and> (\<forall>i k sd ed u a ratio. OkResult i k sd ed (Some u) (Some a) ratio \<in> set rs \<longrightarrow>
            item_remaining (OkResult i k sd ed (Some u) (Some a) ratio) = Exact (a - u))
       \<and> (fst (getAggregatedData E keyEntries) = Inr snap \<longrightarrow>
            totals snap = aggregate (data snap))"
proof -
  from sum_remaining_le_allowance [OF assms(1)] assms(2)
  have br: "(\<Sum>(a, u) \<leftarrow> ok_pairs rs. max (a - u) 0) \<le> 2 ^ 53" by simp
  from foldl_totals_step [OF assms(1), of 0 0 0] assms(2,3) br
  have "aggregate rs =
          \<lparr> total_orgTotalTokensUsed = Exact (\<Sum>(a, u) \<leftarrow> ok_pairs rs. u),
            total_totalAllowance = Exact (\<Sum>(a, u) \<leftarrow> ok_pairs rs. a),
            total_tokensRemaining = Exact (\<Sum>(a, u) \<leftarrow> ok_pairs rs. max (a - u) 0) \<rparr>"
    by (simp add: aggregate_def validResults_def totals_init_def)
  moreover have "item_remaining (OkResult i k sd ed (Some u) (Some a) ratio) = Exact (a - u)"
    if m: "OkResult i k sd ed (Some u) (Some a) ratio \<in> set rs" for i k sd ed u a ratio
  proof -
    from m assms(1) have nn: "0 \<le> u" "0 \<le> a" by auto
    from m have p: "(a, u) \<in> set (ok_pairs rs)"
      by (induction rs rule: ok_pairs.induct) auto
    have "(case (a, u) of (a, u) \<Rightarrow> a) \<le> (\<Sum>(a, u) \<leftarrow> ok_pairs rs. a)"
      by (rule member_le_sum_int [OF _ p]) (auto dest: ok_pairs_nonneg [OF assms(1)])
    with assms(2) have a53: "a \<le> 2 ^ 53" by simp
    have "(case (a, u) of (a, u) \<Rightarrow> u) \<le> (\<Sum>(a, u) \<leftarrow> ok_pairs rs. u)"
      by (rule member_le_sum_int [OF _ p]) (auto dest: ok_pairs_nonneg [OF assms(1)])
    with assms(3) have u53: "u \<le> 2 ^ 53" by simp
    from js_sub_safe [OF nn(2) a53 nn(1) u53] show ?thesis
      by (simp add: item_remaining_def)
  qed
  moreover have "totals snap = aggregate (data snap)"
    if "fst (getAggregatedData E keyEntries) = Inr snap"
    using that by (rule snapshot_totals)
  ultimately show ?thesis by simp
qed

text \<open>
  Three keys that the provider answers with the (allowance, used) pairs \<open>(100, 50)\<close>,
  \<open>(100, 150)\<close> and \<open>(50, 50)\<close>: the snapshot's totals are 250, 250 and 50, and its
  second entry still shows its own remainder, \<open>-50\<close>.
\<close>

theorem aggregate_totals_witness:
  "fst (getAggregatedData demo_env three_key_store) = Inr three_key_snapshot
   \<and> list_all well_formed (data three_key_snapshot)
   \<and> ok_pairs (data three_key_snapshot) = [(100, 50), (100, 150), (50, 50)]
   \<and> total_totalAllowance (totals three_key_snapshot) = Exact 250
   \<and> total_orgTotalTokensUsed (totals three_key_snapshot) = Exact 250
   \<and> total_tokensRemaining (totals three_key_snapshot) = Exact 50
   \<and> item_remaining (data three_key_snapshot ! 1) = Exact (- 50)"
proof -
  let ?rs = "data three_key_snapshot"
  have wf: "\<forall>r \<in> set ?rs. well_formed r" by (simp add: three_key_snapshot_def)
  have p: "ok_pairs ?rs = [(100, 50), (100, 150), (50, 50)]"
    by (simp add: three_key_snapshot_def)
  have b1: "(\<Sum>(a, u) \<leftarrow> ok_pairs ?rs. a) \<le> 2 ^ 53" unfolding p by simp
  have b2: "(\<Sum>(a, u) \<leftarrow> ok_pairs ?rs. u) \<le> 2 ^ 53" unfolding p by simp
  have m: "OkResult ''key-2'' ''fk-l...2222'' ''1970-01-01'' ''N/A'' (Some 150) (Some 100) None \<in> set ?rs"
    by (simp add: three_key_snapshot_def)
  have n: "?rs ! 1 = OkResult ''key-2'' ''fk-l...2222'' ''1970-01-01'' ''N/A'' (Some 150) (Some 100) None"
    by (simp add: three_key_snapshot_def)
  note t = aggregate_totals [OF wf b1 b2, of demo_env three_key_store three_key_snapshot]
  from t three_key_snapshot_eq have tot: "totals three_key_snapshot = aggregate ?rs" by blast
  from t m have "item_remaining (?rs ! 1) = Exact (100 - 150)" unfolding n by blast
  moreover from t have "total_totalAllowance (aggregate ?rs) = Exact 250"
      "total_orgTotalTokensUsed (aggregate ?rs) = Exact 250"
      "total_tokensRemaining (aggregate ?rs) = Exact 50"
    unfolding p by simp_all
  ultimately show ?thesis
    using three_key_snapshot_eq wf p tot by (simp add: list_all_iff)
qed

text \<open>
  Past the bound the model does not follow the sum: with allowances \<open>2^53\<close> and 1 the
  double the code computes is not their sum, and the total is \<open>Inexact\<close>.
\<close>

lemma totals_past_exact_range:
  "total_totalAllowance (aggregate
     [OkResult ''key-1'' ''fk-l...1111'' ''N/A'' ''N/A'' (Some 0) (Some (2 ^ 53)) None,
      OkResult ''key-2'' ''fk-l...2222'' ''N/A'' ''N/A'' (Some 0) (Some 1) None]) = Inexact"
  by (simp add: aggregate_def validResults_def no_error_def totals_step_def totals_init_def
      or0_def exact_int_def to_number_def)

text \<open>
  C10.  In every snapshot that \<open>getAggregatedData\<close> returns, \<open>total_count\<close> is the
  number of entries listed from the store and the length of \<open>data\<close>; it counts the
  entries whose fetch failed together with the successful ones.
\<close>

theorem total_count_counts_all_entries:
  assumes "fst (getAggregatedData E keyEntries) = Inr snap"
  shows "total_count snap = length keyEntries
       \<and> total_count snap = length (data snap)
       \<and> total_count snap = length (filter is_ok (data snap)) + length (filter (\<lambda>r. \<not> is_ok r) (data snap))"
proof -
  have ne: "keyEntries \<noteq> []" using assms by (auto simp: getAggregatedData_def)
  from assms getAggregatedData_nonempty [OF ne, of E]
  have "total_count snap = length keyEntries" "data snap = fst (fan_out E keyEntries)"
    by auto
  then have "total_count snap = length keyEntries" "total_count snap = length (data snap)"
    by (simp_all add: fst_fan_out)
  moreover have "length (data snap)
      = length (filter is_ok (data snap)) + length (filter (\<lambda>r. \<not> is_ok r) (data snap))"
    by (simp add: sum_length_filter_compl)
  ultimately show ?thesis by simp
qed

lemma sample_snapshot_eq: "fst (getAggregatedData demo_env sample_store) = Inr sample_snapshot"
  by (simp add: eval_defs sample_store_def sample_snapshot_def)

text \<open>Three stored keys, two of which fail: the count is three, one result is successful.\<close>

theorem total_count_counts_all_entries_witness:
  "fst (getAggregatedData demo_env sample_store) = Inr sample_snapshot
   \<and> total_count sample_snapshot = 3
   \<and> length sample_store = 3
   \<and> length (data sample_snapshot) = 3
   \<and> length (filter is_ok (data sample_snapshot)) = 1"
  using total_count_counts_all_entries [OF sample_snapshot_eq] sample_snapshot_eq
  by (simp add: sample_snapshot_def sample_store_def)

lemma settled_no_FetchStart:
  "filter is_FetchStart (snd (fetchApiKeyData_settled E ident key outcome)) = []"
  by (cases outcome)
     (auto simp: fetchApiKeyData_settled_def split: sum.splits option.splits)

lemma is_ok_settled:
  "is_ok (fst (fetchApiKeyData_settled E ident key outcome)) \<longleftrightarrow> code_failure_kind outcome = None"
  using settled_failure [of outcome E ident key] settled_success [of outcome E ident key]
  by (cases "code_failure_kind outcome") auto

lemma request_start_filter:
  "filter is_FetchStart (request_start E key @ request_end E key) = request_start E key"
  by (simp add: request_start_def request_end_def)

text \<open>
  C6, as the code has it.  For a credential whose secret is the empty string the fetcher
  does what it does for any other secret: it calls \<open>fetch\<close> with that secret as bearer
  token, so that one request goes out unless the runtime refuses the header value; its
  result is computed from what the call settled to and from nothing else, and it is a
  successful result exactly when the call was answered with a usable body.  No result
  is returned before the call.
\<close>

theorem fetchApiKeyData_empty_secret:
  "(\<not> is_refused (upstream E []) \<longrightarrow>
      filter is_FetchStart (snd (fetchApiKeyData E ident [])) = [FetchStart []])
   \<and> fst (fetchApiKeyData E ident []) = fst (fetchApiKeyData_settled E ident [] (upstream E []))
   \<and> (is_ok (fst (fetchApiKeyData E ident [])) \<longleftrightarrow> code_failure_kind (upstream E []) = None)"
proof -
  have "snd (fetchApiKeyData E ident [])
      = request_start E [] @ request_end E []
        @ snd (fetchApiKeyData_settled E ident [] (upstream E []))"
    by (simp add: fetchApiKeyData_def split: prod.splits)
  then have "filter is_FetchStart (snd (fetchApiKeyData E ident [])) = request_start E []"
    using request_start_filter [of E "[]"] by (simp add: settled_no_FetchStart)
  then show ?thesis
    by (simp add: request_start_def fst_fetchApiKeyData is_ok_settled)
qed

text \<open>The empty secret with a runtime that accepts it and a provider that answers it.\<close>

theorem fetchApiKeyData_empty_secret_witness:
  "\<not> is_refused (upstream demo_env [])
   \<and> filter is_FetchStart (snd (fetchApiKeyData demo_env ''key-9'' [])) = [FetchStart []]
   \<and> code_failure_kind (upstream demo_env []) = None
   \<and> is_ok (fst (fetchApiKeyData demo_env ''key-9'' []))"
proof -
  have r: "\<not> is_refused (upstream demo_env [])"
    by (simp add: demo_env_def usage_body_def)
  have "code_failure_kind (upstream demo_env []) = None"
    by (simp add: demo_env_def usage_body_def response_ok_def)
  with fetchApiKeyData_empty_secret [of demo_env "''key-9''"] r
  show ?thesis by blast
qed

text \<open>
  Against C6 as stated: with the empty key a request is issued, and when the provider
  answers it with usage data the result is a successful one.
\<close>

theorem empty_secret_is_sent_upstream:
  "FetchStart [] \<in> set (snd (fetchApiKeyData demo_env ''key-9'' []))
   \<and> fst (fetchApiKeyData demo_env ''key-9'' [])
       = OkResult ''key-9'' ''...'' ''1970-01-01'' ''N/A'' (Some 0) (Some 10) (Some 0)"
  by (simp add: eval_defs)

text \<open>
  C7, as the code has it.  A successful result carries the \<open>usedRatio\<close> of the
  provider's answer as it is, absent when the provider sent none; nothing is derived from
  the tokens used and the allowance.
\<close>

theorem fetchApiKeyData_usedRatio_passthrough:
  assumes "upstream E key =
             Response st txt (Inr (ApiData (Some (UsageInfo sd ed (Some (StandardUsage u a ratio))))))"
    and "response_ok st"
  shows "fst (fetchApiKeyData E ident key) =
           OkResult ident (maskedKey key) (formatDate E sd) (formatDate E ed) u a ratio
       \<and> usedRatio (fst (fetchApiKeyData E ident key)) = ratio"
  using assms by (simp add: fst_fetchApiKeyData fetchApiKeyData_settled_def)

text \<open>An answer with allowance zero and no ratio: the result has no ratio.\<close>

theorem fetchApiKeyData_usedRatio_passthrough_witness:
  "upstream demo_env ''fk-zero-allowance'' =
     Response 200 (Inr []) (Inr (ApiData (Some (UsageInfo (Some 0) None
        (Some (StandardUsage (Some 0) (Some 0) None))))))
   \<and> response_ok 200
   \<and> usedRatio (fst (fetchApiKeyData demo_env ''key-4'' ''fk-zero-allowance'')) = None"
proof -
  have u: "upstream demo_env ''fk-zero-allowance'' =
     Response 200 (Inr []) (Inr (ApiData (Some (UsageInfo (Some 0) None
        (Some (StandardUsage (Some 0) (Some 0) None))))))"
    by (simp add: demo_env_def usage_body_def)
  have ok: "response_ok 200" by (simp add: response_ok_def)
  from fetchApiKeyData_usedRatio_passthrough [OF u ok, of "''key-4''"] u ok
  show ?thesis by simp
qed

text \<open>
  Against C7 as stated: with allowance zero and no ratio from the provider the result's
  ratio is not zero, and with 150 of 100 tokens used it is not \<open>150 / 100\<close>.
\<close>

theorem usedRatio_not_derived:
  "usedRatio (fst (fetchApiKeyData demo_env ''key-4'' ''fk-zero-allowance'')) \<noteq> Some 0
   \<and> totalAllowance (fst (fetchApiKeyData demo_env ''key-4'' ''fk-zero-allowance'')) = Some 0
   \<and> orgTotalTokensUsed (fst (fetchApiKeyData demo_env ''key-2'' ''fk-live-ddddeeeeffff2222'')) = Some 150
   \<and> totalAllowance (fst (fetchApiKeyData demo_env ''key-2'' ''fk-live-ddddeeeeffff2222'')) = Some 100
   \<and> usedRatio (fst (fetchApiKeyData demo_env ''key-2'' ''fk-live-ddddeeeeffff2222'')) \<noteq> Some (150 / 100)"
  by (simp add: eval_defs)

lemma occurs_in_length: "occurs_in s t \<Longrightarrow> length s \<le> length t"
proof (induction t)
  case Nil
  then show ?case by simp
next
  case (Cons c t)
  from Cons.prems have "take (length s) (c # t) = s \<or> occurs_in s t" by simp
  then show ?case
  proof
    assume "take (length s) (c # t) = s"
    then have "length (take (length s) (c # t)) = length s" by simp
    then show ?thesis by simp
  next
    assume "occurs_in s t"
    with Cons.IH show ?thesis by simp
  qed
qed

lemma length_errorMask: "length (errorMask key) \<le> 7"
  by (simp add: errorMask_def substring_def)

lemma length_maskedKey: "length (maskedKey key) \<le> 11"
  by (simp add: maskedKey_def substring_def substring_from_def)

lemma errorMask_eq: "errorMask key = take 4 key @ ''...''"
  by (simp add: errorMask_def substring_def)

lemma maskedKey_eq: "maskedKey key = take 4 key @ ''...'' @ drop (length key - 4) key"
proof -
  have "nat (max 0 (int (length key) - 4)) = length key - 4" by arith
  then show ?thesis by (simp add: maskedKey_def substring_def substring_from_def)
qed

text \<open>
  C8, as the code has it.  A successful result carries the first four characters of the
  key, three dots and the last four characters; an error result carries the first four
  characters and three dots only.  For a key of more than eleven characters the masked
  value is shorter than the key, which therefore does not occur in it.
\<close>

theorem fetchApiKeyData_masks:
  "(is_ok (fst (fetchApiKeyData E ident key)) \<longrightarrow>
      res_key (fst (fetchApiKeyData E ident key)) = take 4 key @ ''...'' @ drop (length key - 4) key)
   \<and> (\<not> is_ok (fst (fetchApiKeyData E ident key)) \<longrightarrow>
      res_key (fst (fetchApiKeyData E ident key)) = take 4 key @ ''...'')
   \<and> (11 < length key \<longrightarrow> \<not> occurs_in key (res_key (fst (fetchApiKeyData E ident key))))"
proof -
  let ?r = "fst (fetchApiKeyData E ident key)"
  show ?thesis
  proof (cases "code_failure_kind (upstream E key)")
    case None
    then obtain sd ed u a r where r: "?r = OkResult ident (maskedKey key) sd ed u a r"
      using settled_success [of "upstream E key" E ident key] by (auto simp: fst_fetchApiKeyData)
    have "\<not> occurs_in key (maskedKey key)" if "11 < length key"
      using that occurs_in_length [of key "maskedKey key"] length_maskedKey [of key] by auto
    with r show ?thesis by (simp add: maskedKey_eq)
  next
    case (Some k)
    then obtain e where r: "?r = ErrResult ident (errorMask key) e"
      using settled_failure [of "upstream E key" E ident key] by (auto simp: fst_fetchApiKeyData)
    have "\<not> occurs_in key (errorMask key)" if "11 < length key"
      using that occurs_in_length [of key "errorMask key"] length_errorMask [of key] by auto
    with r show ?thesis by (simp add: errorMask_eq)
  qed
qed

text \<open>A key of 24 characters, once answered with usage data and once with status 401.\<close>

theorem fetchApiKeyData_masks_witness:
  "is_ok (fst (fetchApiKeyData demo_env ''key-1'' ''fk-live-aaaabbbbcccc1111''))
   \<and> res_key (fst (fetchApiKeyData demo_env ''key-1'' ''fk-live-aaaabbbbcccc1111'')) = ''fk-l...1111''
   \<and> \<not> is_ok (fst (fetchApiKeyData demo_env ''key-2'' ''fk-revoked-000000004444''))
   \<and> res_key (fst (fetchApiKeyData demo_env ''key-2'' ''fk-revoked-000000004444'')) = ''fk-r...''
   \<and> 11 < length ''fk-live-aaaabbbbcccc1111''
   \<and> \<not> occurs_in ''fk-live-aaaabbbbcccc1111''
          (res_key (fst (fetchApiKeyData demo_env ''key-1'' ''fk-live-aaaabbbbcccc1111'')))"
proof -
  have a: "is_ok (fst (fetchApiKeyData demo_env ''key-1'' ''fk-live-aaaabbbbcccc1111''))"
    by (simp add: eval_defs)
  have b: "\<not> is_ok (fst (fetchApiKeyData demo_env ''key-2'' ''fk-revoked-000000004444''))"
    by (simp add: eval_defs)
  have c: "11 < length ''fk-live-aaaabbbbcccc1111''" by simp
  from fetchApiKeyData_masks [of demo_env "''key-1''" "''fk-live-aaaabbbbcccc1111''"]
       fetchApiKeyData_masks [of demo_env "''key-2''" "''fk-revoked-000000004444''"] a b c
  show ?thesis by simp
qed

text \<open>
  Against C8 as stated: the error result for a key of 23 characters lacks the last four
  characters, and the successful result for the key \<open>abc\<close> contains the whole key.
\<close>

theorem error_entry_mask_and_short_secret:
  "res_key (fst (fetchApiKeyData demo_env ''key-2'' ''fk-revoked-000000004444'')) = ''fk-r...''
   \<and> res_key (fst (fetchApiKeyData demo_env ''key-2'' ''fk-revoked-000000004444''))
        \<noteq> take 4 ''fk-revoked-000000004444'' @ ''...'' @ drop 19 ''fk-revoked-000000004444''
   \<and> res_key (fst (fetchApiKeyData demo_env ''key-5'' ''abc'')) = ''abc...abc''
   \<and> occurs_in ''abc'' (res_key (fst (fetchApiKeyData demo_env ''key-5'' ''abc'')))"
  by (simp add: eval_defs)

lemma find_distinct_key:
  "distinct (map f xs) \<Longrightarrow> x \<in> set xs \<Longrightarrow> find (\<lambda>e. f e = f x) xs = Some x"
  by (induction xs) (auto simp: image_iff)

lemma res_id_fetch: "res_id (fst (fetchApiKeyData E ident key)) = ident"
  using settled_failure [of "upstream E key" E ident key] settled_success [of "upstream E key" E ident key]
  by (cases "code_failure_kind (upstream E key)") (auto simp: fst_fetchApiKeyData)

lemma is_ok_no_error: "is_ok r \<Longrightarrow> no_error r"
  by (cases r) (simp_all add: no_error_def)

lemma settled_no_ConsoleLog:
  "ConsoleLog s \<notin> set (snd (fetchApiKeyData_settled E ident key outcome))"
  by (cases outcome)
     (auto simp: fetchApiKeyData_settled_def split: sum.splits option.splits)

lemma fan_out_no_ConsoleLog: "ConsoleLog s \<notin> set (snd (fan_out E keyEntries))"
  by (auto simp: fan_out_def settle_entry_def settled_no_ConsoleLog request_start_def
      request_end_def)

lemma settled_lines_key_free:
  "snd (fetchApiKeyData_settled E ident key outcome) = snd (fetchApiKeyData_settled E ident key' outcome)"
  by (cases outcome)
     (auto simp: fetchApiKeyData_settled_def split: sum.splits option.splits)

lemma fan_out_ConsoleError:
  assumes "ConsoleError s \<in> set (snd (fan_out E keyEntries))"
  shows "\<exists>e \<in> set keyEntries. ConsoleError s \<in> set (snd (settle_entry E e))"
  using assms
  by (auto simp: fan_out_def request_start_def request_end_def split: if_splits)

lemma balance_report_no_ConsoleError:
  "ConsoleError s \<notin> set (balance_report keyEntries rs)"
  by (auto simp: balance_report_def log_original_key_def split: option.splits)

text \<open>
  C9, as the code has it.  \<open>getAggregatedData\<close> writes to the log, in full, the key of
  every stored entry whose result is successful with a positive remainder (ids being
  unique); every line it writes with \<open>console.log\<close> is one of the fixed lines of the
  report or the key of a stored entry whose id is that of such a result; and every line
  written with \<open>console.error\<close> is a line the fetcher builds from the id of a stored
  entry and from what \<open>fetch\<close> settled to for it, the same line whatever the key is.
\<close>

theorem getAggregatedData_logs_keys_with_balance:
  "(entry \<in> set keyEntries \<and> distinct (map entry_id keyEntries)
      \<and> is_ok (fst (fetchApiKeyData E (entry_id entry) (entry_key entry)))
      \<and> 0 < or0 (totalAllowance (fst (fetchApiKeyData E (entry_id entry) (entry_key entry))))
             - or0 (orgTotalTokensUsed (fst (fetchApiKeyData E (entry_id entry) (entry_key entry))))
      \<longrightarrow> ConsoleLog (entry_key entry) \<in> set (snd (getAggregatedData E keyEntries)))
   \<and> (ConsoleLog s \<in> set (snd (getAggregatedData E keyEntries)) \<longrightarrow>
        s \<in> banner_lines
        \<or> (\<exists>e \<in> set keyEntries. s = entry_key e
              \<and> (\<exists>r \<in> set (keysWithBalance (fst (fan_out E keyEntries))). res_id r = entry_id e)))
   \<and> (ConsoleError s \<in> set (snd (getAggregatedData E keyEntries)) \<longrightarrow>
        (\<exists>e \<in> set keyEntries.
           ConsoleError s \<in> set (snd (fetchApiKeyData_settled E (entry_id e) any_key
                                        (upstream E (entry_key e))))))"
proof (intro conjI impI)
  let ?r = "fst (fetchApiKeyData E (entry_id entry) (entry_key entry))"
  let ?rs = "fst (fan_out E keyEntries)"
  assume a: "entry \<in> set keyEntries \<and> distinct (map entry_id keyEntries) \<and> is_ok ?r
      \<and> 0 < or0 (totalAllowance ?r) - or0 (orgTotalTokensUsed ?r)"
  then have ne: "keyEntries \<noteq> []" by auto
  from a have "?r \<in> set ?rs" by (auto simp: fst_fan_out)
  with a have kb: "?r \<in> set (keysWithBalance ?rs)"
    by (simp add: keysWithBalance_def validResults_def is_ok_no_error)
  have "find (\<lambda>e. entry_id e = res_id ?r) keyEntries = Some entry"
    using a find_distinct_key [of entry_id keyEntries entry] by (simp add: res_id_fetch)
  then have "log_original_key keyEntries ?r = [ConsoleLog (entry_key entry)]"
    by (simp add: log_original_key_def)
  with kb have "ConsoleLog (entry_key entry) \<in> set (balance_report keyEntries ?rs)"
    by (force simp: balance_report_def)
  then show "ConsoleLog (entry_key entry) \<in> set (snd (getAggregatedData E keyEntries))"
    using ne by (simp add: getAggregatedData_trace)
next
  let ?rs = "fst (fan_out E keyEntries)"
  assume l: "ConsoleLog s \<in> set (snd (getAggregatedData E keyEntries))"
  then have ne: "keyEntries \<noteq> []" by (auto simp: getAggregatedData_def)
  with l have "ConsoleLog s \<in> set (balance_report keyEntries ?rs)"
    by (simp add: getAggregatedData_trace fan_out_no_ConsoleLog)
  then consider "s \<in> banner_lines"
    | r where "r \<in> set (keysWithBalance ?rs)" "ConsoleLog s \<in> set (log_original_key keyEntries r)"
    by (auto simp: balance_report_def banner_lines_def split: if_splits)
  then show "s \<in> banner_lines
        \<or> (\<exists>e \<in> set keyEntries. s = entry_key e
              \<and> (\<exists>r \<in> set (keysWithBalance ?rs). res_id r = entry_id e))"
  proof cases
    case 1
    then show ?thesis by simp
  next
    case 2
    then obtain e where "find (\<lambda>e. entry_id e = res_id r) keyEntries = Some e" "s = entry_key e"
      by (cases "find (\<lambda>e. entry_id e = res_id r) keyEntries")
         (auto simp: log_original_key_def)
    then have e: "e \<in> set keyEntries" "res_id r = entry_id e" "s = entry_key e"
      by (auto simp: find_Some_iff)
    from 2(1) e(2) have "\<exists>r \<in> set (keysWithBalance ?rs). res_id r = entry_id e" ..
    with e(1,3) show ?thesis by auto
  qed
next
  assume l: "ConsoleError s \<in> set (snd (getAggregatedData E keyEntries))"
  then have ne: "keyEntries \<noteq> []" by (auto simp: getAggregatedData_def)
  with l have "ConsoleError s \<in> set (snd (fan_out E keyEntries))"
    by (simp add: getAggregatedData_trace balance_report_no_ConsoleError)
  then obtain e where e: "e \<in> set keyEntries" "ConsoleError s \<in> set (snd (settle_entry E e))"
    using fan_out_ConsoleError by blast
  from e(2) have "ConsoleError s \<in> set (snd (fetchApiKeyData_settled E (entry_id e) any_key
                                        (upstream E (entry_key e))))"
    using settled_lines_key_free [of E "entry_id e" "entry_key e" "upstream E (entry_key e)" any_key]
    by (simp add: settle_entry_def)
  with e(1) show "\<exists>e \<in> set keyEntries.
           ConsoleError s \<in> set (snd (fetchApiKeyData_settled E (entry_id e) any_key
                                        (upstream E (entry_key e))))" ..
qed

text \<open>A key with 50 of 100 tokens left is written to the log as it is stored.\<close>

theorem getAggregatedData_logs_keys_with_balance_witness:
  "mk_entry ''key-1'' ''fk-live-aaaabbbbcccc1111'' \<in> set one_key_store
   \<and> distinct (map entry_id one_key_store)
   \<and> is_ok (fst (fetchApiKeyData demo_env ''key-1'' ''fk-live-aaaabbbbcccc1111''))
   \<and> ConsoleLog ''fk-live-aaaabbbbcccc1111'' \<in> set (snd (getAggregatedData demo_env one_key_store))
   \<and> ConsoleLog ''fk-live-aaaabbbbcccc1111'' \<in> set (snd (getAggregatedData demo_env sample_store))
   \<and> ''fk-live-aaaabbbbcccc1111'' \<notin> banner_lines"
proof -
  let ?e = "mk_entry ''key-1'' ''fk-live-aaaabbbbcccc1111''"
  have h: "?e \<in> set one_key_store \<and> distinct (map entry_id one_key_store)
      \<and> is_ok (fst (fetchApiKeyData demo_env (entry_id ?e) (entry_key ?e)))
      \<and> 0 < or0 (totalAllowance (fst (fetchApiKeyData demo_env (entry_id ?e) (entry_key ?e))))
             - or0 (orgTotalTokensUsed (fst (fetchApiKeyData demo_env (entry_id ?e) (entry_key ?e))))"
    by (simp add: eval_defs one_key_store_def)
  have h2: "?e \<in> set sample_store \<and> distinct (map entry_id sample_store)"
    by (simp add: sample_store_def mk_entry_def)
  have "length x \<noteq> 24" if "x \<in> banner_lines" for x
    using that
    by (auto simp: banner_lines_def newline_def balance_header_def no_balance_notice_def)
  then have nb: "''fk-live-aaaabbbbcccc1111'' \<notin> banner_lines"
    by force
  have k: "entry_key ?e = ''fk-live-aaaabbbbcccc1111''" "entry_id ?e = ''key-1''"
    by (simp_all add: mk_entry_def)
  from getAggregatedData_logs_keys_with_balance [of ?e one_key_store demo_env]
       getAggregatedData_logs_keys_with_balance [of ?e sample_store demo_env] h h2 nb
  show ?thesis unfolding k by blast
qed

text \<open>Against C9 as stated: the log of one aggregation holds a stored key in full.\<close>

theorem full_secret_is_logged:
  "ConsoleLog ''fk-live-aaaabbbbcccc1111'' \<in> set (snd (getAggregatedData demo_env one_key_store))
   \<and> entry_key (hd one_key_store) = ''fk-live-aaaabbbbcccc1111''"
  by (simp add: eval_defs one_key_store_def)

lemma peak_active_ge: "n \<le> peak_active n es"
  by (induction n es rule: peak_active.induct) auto

lemma peak_active_no_start:
  "filter is_FetchStart es = [] \<Longrightarrow> peak_active n es = n"
proof (induction n es rule: peak_active.induct)
  case (3 n k es)
  then have "peak_active (n - 1) es = n - 1" by simp
  then show ?case by simp
qed simp_all

lemma peak_active_starts:
  "list_all is_FetchStart es1 \<Longrightarrow> peak_active n (es1 @ es) = peak_active (n + length es1) es"
proof (induction es1 arbitrary: n)
  case Nil
  then show ?case by simp
next
  case (Cons e es1)
  then obtain k where e: "e = FetchStart k" by (cases e) auto
  have "Suc n \<le> peak_active (Suc n + length es1) es"
    using peak_active_ge [of "Suc n + length es1" es] by simp
  with Cons e show ?case by simp
qed

lemma balance_report_no_start: "filter is_FetchStart (balance_report keyEntries rs) = []"
  by (auto simp: balance_report_def log_original_key_def filter_empty_conv split: option.splits)

lemma fan_out_tail_no_start:
  "filter is_FetchStart
     (concat (map (\<lambda>entry. request_end E (entry_key entry) @ snd (settle_entry E entry))
        keyEntries)) = []"
proof -
  have "\<not> is_FetchStart ev" if "ev \<in> set (snd (settle_entry E entry))" for ev entry
    using that settled_no_FetchStart [of E "entry_id entry" "entry_key entry"
        "upstream E (entry_key entry)"]
    by (auto simp: filter_empty_conv settle_entry_def)
  then show ?thesis
    by (auto simp: filter_empty_conv request_end_def split: if_splits)
qed

lemma request_starts_all_start:
  "list_all is_FetchStart (concat (map (\<lambda>entry. request_start E (entry_key entry)) keyEntries))"
  by (induction keyEntries) (simp_all add: request_start_def)

lemma length_request_starts:
  "length (concat (map (\<lambda>entry. request_start E (entry_key entry)) keyEntries))
     = length (filter (\<lambda>entry. \<not> is_refused (upstream E (entry_key entry))) keyEntries)"
  by (induction keyEntries) (simp_all add: request_start_def)

lemma getAggregatedData_peak:
  "peak_active 0 (snd (getAggregatedData E keyEntries))
     = length (filter (\<lambda>entry. \<not> is_refused (upstream E (entry_key entry))) keyEntries)"
proof (cases "keyEntries = []")
  case True
  then show ?thesis by (simp add: getAggregatedData_def)
next
  case False
  show ?thesis
    using False
    by (simp add: getAggregatedData_trace fan_out_def
        peak_active_starts [OF request_starts_all_start] length_request_starts
        peak_active_no_start fan_out_tail_no_start balance_report_no_start)
qed

section \<open>Properties of the runner\<close>

lemma length_array_set: "length (array_set xs i v) = max (length xs) (Suc i)"
  by (simp add: array_set_def)

lemma array_get_set: "array_get (array_set xs i v) j = (if j = i then Some v else array_get xs j)"
  by (auto simp: array_get_def array_set_def nth_append nth_Cons')

lemma active_update:
  "w < length ws \<Longrightarrow>
     active (ws[w := wk]) + (if is_Busy (ws ! w) then 1 else 0)
       = active ws + (if is_Busy wk then 1 else 0)"
proof (induction ws arbitrary: w)
  case Nil
  then show ?case by simp
next
  case (Cons x ws)
  show ?case
  proof (cases w)
    case 0
    then show ?thesis by (simp add: active_def)
  next
    case (Suc w')
    with Cons.prems have "w' < length ws" by simp
    from Cons.IH [OF this] Suc show ?thesis by (simp add: active_def)
  qed
qed

lemma active_pos: "w < length ws \<Longrightarrow> is_Busy (ws ! w) \<Longrightarrow> 0 < active ws"
  unfolding active_def by (rule length_pos_if_in_set [of "ws ! w"]) simp

lemma active_le_length: "active ws \<le> length ws"
  by (simp add: active_def)

lemma spawn_eq:
  "index s + n \<le> length tasks \<Longrightarrow>
     spawn tasks n s =
       (map (\<lambda>i. Busy i False) [index s..<index s + n],
        s\<lparr>index := index s + n, running := running s + int n\<rparr>)"
proof (induction n arbitrary: s)
  case 0
  then show ?case by simp
next
  case (Suc n)
  let ?s1 = "s\<lparr>index := index s + 1, running := running s + 1\<rparr>"
  from Suc.prems have e: "executeNext tasks False s = (Busy (index s) False, ?s1)"
    by (simp add: executeNext_def)
  from Suc.prems have "index ?s1 + n \<le> length tasks" by simp
  from Suc.IH [OF this] have
    "spawn tasks n ?s1 =
       (map (\<lambda>i. Busy i False) [Suc (index s)..<Suc (index s) + n],
        s\<lparr>index := index s + Suc n, running := running s + int (Suc n)\<rparr>)"
    by simp
  moreover have "[index s..<index s + Suc n] = index s # [Suc (index s)..<Suc (index s) + n]"
    by (simp add: upt_conv_Cons del: upt_Suc)
  ultimately show ?case
    using e by (simp del: upt_Suc)
qed

lemma run_start_eq:
  "run_start r0 K tasks =
     (map (\<lambda>i. Busy i False) [0..<min K (length tasks)],
      \<lparr>index = min K (length tasks), running = r0 + int (min K (length tasks)),
        results = []\<rparr>)"
  by (simp add: run_start_def spawn_eq)

lemma active_all_busy: "active (map (\<lambda>i. Busy i False) xs) = length xs"
  by (induction xs) (simp_all add: active_def)

lemma ceiling_inv_start: "ceiling_inv K tasks (run_start r0 K tasks)"
  by (simp add: ceiling_inv_def run_start_eq)

lemma ceiling_inv_step:
  assumes "ceiling_inv K tasks c" and "step tasks c c'"
  shows "ceiling_inv K tasks c'"
  using assms(2)
proof cases
  case (settle w ws i failed s wk s')
  with assms(1) show ?thesis by (simp add: ceiling_inv_def)
qed

lemma ceiling_inv_interleaved:
  assumes "ceiling_inv K tasks c" and "interleaved tasks c c'"
  shows "ceiling_inv K tasks c'"
  using assms(2)
proof cases
  case own
  with assms(1) show ?thesis by (rule ceiling_inv_step)
next
  case (other ws s r)
  with assms(1) show ?thesis by (simp add: ceiling_inv_def)
qed

lemma ceiling_inv_reachable:
  "(interleaved tasks)\<^sup>*\<^sup>* (run_start r0 K tasks) c \<Longrightarrow> ceiling_inv K tasks c"
  by (induction rule: rtranclp_induct) (auto intro: ceiling_inv_start ceiling_inv_interleaved)

lemma well_behaved_settles: "well_behaved t \<Longrightarrow> settles t"
  by (cases t) auto

lemma resume_well_behaved:
  assumes "well_behaved (tasks ! i)"
  obtains slot where "expected_slot (tasks ! i) = Some slot"
    and "resume tasks i f s =
           executeNext tasks f (s\<lparr>results := array_set (results s) i slot,
                                   running := running s - 1\<rparr>)"
proof (cases "tasks ! i")
  case (Fulfils v)
  then show ?thesis using that [of "Result v"] by (simp add: resume_def)
next
  case (Rejects r)
  with assms obtain m where "r = Some m" by (cases r) auto
  with Rejects show ?thesis using that [of "ErrorPlaceholder m"] by (simp add: resume_def)
next
  case Never
  with assms show ?thesis by simp
qed

lemma order_inv_start:
  "order_inv tasks 0 (run_start r0 K tasks)"
  by (auto simp: order_inv_def run_start_eq active_all_busy array_get_def)

lemma order_inv_step:
  assumes inv: "order_inv tasks n c" and st: "step tasks c c'"
    and wb: "\<forall>t \<in> set tasks. well_behaved t"
  shows "order_inv tasks (Suc n) c'"
  using st
proof cases
  case (settle w ws i failed s wk s')
  note c = settle(1) and c' = settle(2) and w = settle(3) and busy = settle(4) and i = settle(5)
  from inv have I: "index s \<le> length tasks
      \<and> index s = n + active ws
      \<and> (\<forall>w<length ws. \<forall>i f. ws ! w = Busy i f \<longrightarrow> i < index s \<and> \<not> f)
      \<and> (\<forall>w<length ws. \<forall>w'<length ws. \<forall>i.
            ws ! w = Busy i False \<and> ws ! w' = Busy i False \<longrightarrow> w = w')
      \<and> (\<forall>w<length ws. \<forall>f. ws ! w = Finished f \<longrightarrow> index s = length tasks \<and> \<not> f)
      \<and> length (results s) \<le> index s
      \<and> (\<forall>i<length tasks.
            array_get (results s) i =
              (if i < index s \<and> (\<forall>w<length ws. ws ! w \<noteq> Busy i False)
               then expected_slot (tasks ! i) else None))"
    unfolding c order_inv_def prod.case .
  then have
    I1: "index s \<le> length tasks" and
    I2: "index s = n + active ws" and
    I3: "\<And>w i f. w < length ws \<Longrightarrow> ws ! w = Busy i f \<Longrightarrow> i < index s \<and> \<not> f" and
    I4: "\<And>w w' i. w < length ws \<Longrightarrow> w' < length ws \<Longrightarrow> ws ! w = Busy i False \<Longrightarrow>
            ws ! w' = Busy i False \<Longrightarrow> w = w'" and
    I5: "\<And>w f. w < length ws \<Longrightarrow> ws ! w = Finished f \<Longrightarrow> index s = length tasks \<and> \<not> f" and
    I6: "length (results s) \<le> index s" and
    I7: "\<And>j. j < length tasks \<Longrightarrow> array_get (results s) j =
            (if j < index s \<and> (\<forall>w<length ws. ws ! w \<noteq> Busy j False)
             then expected_slot (tasks ! j) else None)"
    by blast+
  from I3 [OF w busy] have nf: "failed = False" and ii: "i < index s" by simp_all
  from wb i have "well_behaved (tasks ! i)" by simp
  then obtain slot where slot: "expected_slot (tasks ! i) = Some slot"
    and res: "resume tasks i failed s =
           executeNext tasks failed (s\<lparr>results := array_set (results s) i slot,
                                        running := running s - 1\<rparr>)"
    by (rule resume_well_behaved)
  let ?s1 = "s\<lparr>results := array_set (results s) i slot, running := running s - 1\<rparr>"
  from active_update [OF w, of wk] busy
  have act: "active (ws[w := wk]) + 1 = active ws + (if is_Busy wk then 1 else 0)" by simp
  have len: "length (array_set (results s) i slot) \<le> index s"
    using I6 ii by (simp add: length_array_set)
  show ?thesis
  proof (cases "index s \<ge> length tasks")
    case True
    with res settle(7) nf have wk: "wk = Finished False" and s': "s' = ?s1"
      by (simp_all add: executeNext_def)
    have full: "index s = length tasks" using True I1 by simp
    have nb: "(\<forall>v<length ws. (ws[w := wk]) ! v \<noteq> Busy j False)
        \<longleftrightarrow> (j = i \<or> (\<forall>v<length ws. ws ! v \<noteq> Busy j False))" for j
    proof (cases "j = i")
      case True
      have "(ws[w := wk]) ! v \<noteq> Busy i False" if "v < length ws" for v
        using that I4 [OF that w _ ] busy nf wk by (cases "v = w") auto
      with True show ?thesis by simp
    next
      case False
      have "(ws[w := wk]) ! v = Busy j False \<longleftrightarrow> ws ! v = Busy j False" if "v < length ws" for v
        using that False busy wk by (cases "v = w") auto
      with False show ?thesis by simp
    qed
    have "order_inv tasks (Suc n) (ws[w := wk], s')"
      unfolding order_inv_def
    proof (simp only: prod.case, intro conjI allI impI)
      show "index s' \<le> length tasks" using I1 s' by simp
      show "index s' = Suc n + active (ws[w := wk])" using I2 act wk s' by simp
    next
      fix v j f assume "v < length (ws[w := wk])" "(ws[w := wk]) ! v = Busy j f"
      then show "j < index s'" "\<not> f"
        using I3 [of v j f] wk s' by (cases "v = w"; simp)+
    next
      fix v v' j assume "v < length (ws[w := wk])" "v' < length (ws[w := wk])"
        "(ws[w := wk]) ! v = Busy j False \<and> (ws[w := wk]) ! v' = Busy j False"
      then show "v = v'"
        using I4 [of v v' j] wk by (cases "v = w"; cases "v' = w"; simp)
    next
      fix v f assume "v < length (ws[w := wk])" "(ws[w := wk]) ! v = Finished f"
      then show "index s' = length tasks" "\<not> f"
        using I5 [of v f] wk s' full by (cases "v = w"; simp)+
    next
      show "length (results s') \<le> index s'" using len s' by simp
    next
      fix j assume j: "j < length tasks"
      show "array_get (results s') j =
          (if j < index s' \<and> (\<forall>v<length (ws[w := wk]). (ws[w := wk]) ! v \<noteq> Busy j False)
           then expected_slot (tasks ! j) else None)"
        using I7 [OF j] nb [of j] slot ii s' by (auto simp add: array_get_set)
    qed
    with c' show ?thesis by simp
  next
    case False
    with res settle(7) nf have wk: "wk = Busy (index s) False"
      and s': "s' = ?s1\<lparr>index := index s + 1, running := running ?s1 + 1\<rparr>"
      by (simp_all add: executeNext_def)
    have nofin: "ws ! v \<noteq> Finished f" if "v < length ws" for v f
      using I5 [OF that, of f] False by auto
    have nb: "(\<forall>v<length ws. (ws[w := wk]) ! v \<noteq> Busy j False)
        \<longleftrightarrow> (j \<noteq> index s \<and> (j = i \<or> (\<forall>v<length ws. ws ! v \<noteq> Busy j False)))" for j
    proof (cases "j = index s")
      case True
      with w wk show ?thesis by auto
    next
      case ni: False
      show ?thesis
      proof (cases "j = i")
        case True
        have "(ws[w := wk]) ! v \<noteq> Busy i False" if "v < length ws" for v
          using that I4 [OF that w _ ] busy nf wk ii by (cases "v = w") auto
        with True ni show ?thesis by simp
      next
        case False
        have "(ws[w := wk]) ! v = Busy j False \<longleftrightarrow> ws ! v = Busy j False" if "v < length ws" for v
          using that False busy wk ni by (cases "v = w") auto
        with False ni show ?thesis by simp
      qed
    qed
    have "order_inv tasks (Suc n) (ws[w := wk], s')"
      unfolding order_inv_def
    proof (simp only: prod.case, intro conjI allI impI)
      show "index s' \<le> length tasks" using False s' by simp
      show "index s' = Suc n + active (ws[w := wk])" using I2 act wk s' by simp
    next
      fix v j f assume "v < length (ws[w := wk])" "(ws[w := wk]) ! v = Busy j f"
      then show "j < index s'" "\<not> f"
        using I3 [of v j f] wk s' by (cases "v = w"; force)+
    next
      fix v v' j assume a: "v < length (ws[w := wk])" "v' < length (ws[w := wk])"
        "(ws[w := wk]) ! v = Busy j False \<and> (ws[w := wk]) ! v' = Busy j False"
      then show "v = v'"
        using I4 [of v v' j] I3 [of v j False] I3 [of v' j False] wk
        by (cases "v = w"; cases "v' = w"; force)
    next
      fix v f assume "v < length (ws[w := wk])" "(ws[w := wk]) ! v = Finished f"
      then show "index s' = length tasks" "\<not> f"
        using nofin [of v f] wk by (cases "v = w"; simp)+
    next
      show "length (results s') \<le> index s'" using len s' by simp
    next
      fix j assume j: "j < length tasks"
      show "array_get (results s') j =
          (if j < index s' \<and> (\<forall>v<length (ws[w := wk]). (ws[w := wk]) ! v \<noteq> Busy j False)
           then expected_slot (tasks ! j) else None)"
      proof (cases "j = index s")
        case True
        then have "array_get (results s) j = None" using I6 by (simp add: array_get_def)
        with True nb [of j] ii s' show ?thesis by (auto simp add: array_get_set)
      next
        case False
        then have "j < index s' \<longleftrightarrow> j < index s" using s' by auto
        with I7 [OF j] nb [of j] slot ii s' False show ?thesis by (auto simp add: array_get_set)
      qed
    qed
    with c' show ?thesis by simp
  qed
qed

lemma fire_step: "fire tasks w c = Some c' \<Longrightarrow> step tasks c c'"
  by (cases c) (auto split: if_splits worker.splits prod.splits intro: step.intros)

lemma run_picks_relpow:
  "run_picks tasks picks c = Some c' \<Longrightarrow> (step tasks ^^ length picks) c c'"
proof (induction picks arbitrary: c)
  case Nil
  then show ?case by simp
next
  case (Cons w picks)
  then obtain c1 where f: "fire tasks w c = Some c1" and r: "run_picks tasks picks c1 = Some c'"
    by (auto split: option.splits)
  from fire_step [OF f] Cons.IH [OF r] have "(step tasks ^^ Suc (length picks)) c c'"
    by (rule relpowp_Suc_I2)
  then show ?case by simp
qed

lemma invs_relpow:
  assumes "\<forall>t \<in> set tasks. well_behaved t"
  shows "(step tasks ^^ n) (run_start r0 K tasks) c \<Longrightarrow>
           order_inv tasks n c \<and> ceiling_inv K tasks c"
proof (induction n arbitrary: c)
  case 0
  then have "c = run_start r0 K tasks" by simp
  then show ?case by (simp add: order_inv_start ceiling_inv_start)
next
  case (Suc n)
  then obtain c1 where "(step tasks ^^ n) (run_start r0 K tasks) c1" "step tasks c1 c"
    by auto
  with Suc.IH [of c1] assms show ?case
    by (auto intro: order_inv_step ceiling_inv_step)
qed

lemma demo_run: "run_picks demo_tasks [1, 1, 0] (run_start 0 2 demo_tasks) = Some demo_final"
  by code_simp

lemma expected_slot_well_behaved: "well_behaved t \<Longrightarrow> \<exists>x. expected_slot t = Some x"
  by (cases t rule: expected_slot.cases) auto

lemma busy_worker_exists:
  assumes "0 < active ws"
  obtains w i f where "w < length ws" "ws ! w = Busy i f"
proof -
  from assms have "filter is_Busy ws \<noteq> []" by (simp add: active_def)
  then obtain x where "x \<in> set ws" "is_Busy x"
    by (auto simp: filter_empty_conv)
  then obtain w where w: "w < length ws" "ws ! w = x" "is_Busy x"
    by (auto simp: in_set_conv_nth)
  then obtain i f where "ws ! w = Busy i f"
    by (cases x) auto
  with w(1) show ?thesis by (rule that)
qed

lemma active_zero_all_finished:
  assumes "active ws = 0" and "w < length ws"
  shows "\<exists>f. ws ! w = Finished f"
proof (cases "ws ! w")
  case (Busy i f)
  with active_pos [OF assms(2)] assms(1) show ?thesis by simp
next
  case (Finished f)
  then show ?thesis by simp
qed

text \<open>What every execution of a run looks like.\<close>

lemma run_execution:
  assumes K: "1 \<le> K" and wb: "\<forall>t \<in> set tasks. well_behaved t"
    and reach: "(step tasks ^^ n) (run_start r0 K tasks) (ws, s)"
  shows "n \<le> length tasks"
    and "n < length tasks \<Longrightarrow> run_result (ws, s) = None \<and> (\<exists>c'. step tasks (ws, s) c')"
    and "n = length tasks \<Longrightarrow>
           results s = map expected_slot tasks \<and> run_result (ws, s) = Some (Returns (results s))"
proof -
  from invs_relpow [OF wb reach]
  have oi: "order_inv tasks n (ws, s)" and ci: "ceiling_inv K tasks (ws, s)" by simp_all
  from oi have I: "index s \<le> length tasks
      \<and> index s = n + active ws
      \<and> (\<forall>w<length ws. \<forall>i f. ws ! w = Busy i f \<longrightarrow> i < index s \<and> \<not> f)
      \<and> (\<forall>w<length ws. \<forall>w'<length ws. \<forall>i.
            ws ! w = Busy i False \<and> ws ! w' = Busy i False \<longrightarrow> w = w')
      \<and> (\<forall>w<length ws. \<forall>f. ws ! w = Finished f \<longrightarrow> index s = length tasks \<and> \<not> f)
      \<and> length (results s) \<le> index s
      \<and> (\<forall>i<length tasks.
            array_get (results s) i =
              (if i < index s \<and> (\<forall>w<length ws. ws ! w \<noteq> Busy i False)
               then expected_slot (tasks ! i) else None))"
    unfolding order_inv_def prod.case .
  then have
    I1: "index s \<le> length tasks" and
    I2: "index s = n + active ws" and
    I3: "\<And>w i f. w < length ws \<Longrightarrow> ws ! w = Busy i f \<Longrightarrow> i < index s \<and> \<not> f" and
    I5: "\<And>w f. w < length ws \<Longrightarrow> ws ! w = Finished f \<Longrightarrow> index s = length tasks \<and> \<not> f" and
    I6: "length (results s) \<le> index s" and
    I7: "\<And>j. j < length tasks \<Longrightarrow> array_get (results s) j =
            (if j < index s \<and> (\<forall>w<length ws. ws ! w \<noteq> Busy j False)
             then expected_slot (tasks ! j) else None)"
    by blast+
  from ci have len: "length ws = min K (length tasks)" by (simp add: ceiling_inv_def)
  have nofail: "Finished True \<notin> set ws"
    using I5 by (auto simp: in_set_conv_nth)
  show "n \<le> length tasks" using I1 I2 by simp
  show "run_result (ws, s) = None \<and> (\<exists>c'. step tasks (ws, s) c')" if n: "n < length tasks"
  proof -
    from n K len have pos: "0 < length ws" by (cases tasks) auto
    have "0 < active ws"
    proof (rule ccontr)
      assume "\<not> 0 < active ws"
      then have z: "active ws = 0" by simp
      from active_zero_all_finished [OF z pos] obtain f where "ws ! 0 = Finished f" ..
      from I5 [OF pos this] I2 z n show False by simp
    qed
    then obtain w i f where w: "w < length ws" and b: "ws ! w = Busy i f"
      by (rule busy_worker_exists)
    from I3 [OF w b] I1 have i: "i < length tasks" by simp
    with wb have "settles (tasks ! i)" by (simp add: well_behaved_settles)
    moreover obtain wk s' where "resume tasks i f s = (wk, s')" by (cases "resume tasks i f s")
    ultimately have "step tasks (ws, s) (ws[w := wk], s')"
      using w b i by (intro step.intros)
    moreover have "\<not> (\<forall>x \<in> set ws. x = Finished False)"
    proof
      assume "\<forall>x \<in> set ws. x = Finished False"
      with nth_mem [OF w] b show False by auto
    qed
    ultimately show ?thesis using nofail by (auto simp: run_result_def list_all_iff)
  qed
  show "results s = map expected_slot tasks \<and> run_result (ws, s) = Some (Returns (results s))"
    if n: "n = length tasks"
  proof -
    from n I1 I2 have z: "active ws = 0" and full: "index s = length tasks" by simp_all
    have fin: "x = Finished False" if "x \<in> set ws" for x
    proof -
      from that obtain w where w: "w < length ws" "ws ! w = x" by (auto simp: in_set_conv_nth)
      from active_zero_all_finished [OF z w(1)] obtain f where f: "ws ! w = Finished f" ..
      with I5 [OF w(1) f] w show ?thesis by simp
    qed
    have get: "array_get (results s) j = expected_slot (tasks ! j)" if "j < length tasks" for j
    proof -
      have "ws ! w \<noteq> Busy j False" if "w < length ws" for w
        using active_zero_all_finished [OF z that] by auto
      with I7 [OF \<open>j < length tasks\<close>] full that show ?thesis by simp
    qed
    have lenr: "length (results s) = length tasks"
    proof (rule antisym)
      show "length (results s) \<le> length tasks" using I6 full by simp
      show "length tasks \<le> length (results s)"
      proof (rule ccontr)
        assume "\<not> length tasks \<le> length (results s)"
        then have j: "length (results s) < length tasks" by simp
        then have "array_get (results s) (length (results s)) = None"
          by (simp add: array_get_def)
        moreover from wb j have "well_behaved (tasks ! length (results s))" by simp
        ultimately show False
          using get [OF j] expected_slot_well_behaved by fastforce
      qed
    qed
    have "results s = map expected_slot tasks"
    proof (rule nth_equalityI)
      show "length (results s) = length (map expected_slot tasks)" using lenr by simp
      fix j assume "j < length (results s)"
      with lenr get [of j] show "results s ! j = map expected_slot tasks ! j"
        by (simp add: array_get_def)
    qed
    moreover have "run_result (ws, s) = Some (Returns (results s))"
      using fin nofail by (auto simp: run_result_def list_all_iff)
    ultimately show ?thesis by simp
  qed
qed

text \<open>
  C2.  With a concurrency of at least one and tasks that all settle, every execution of
  \<open>run\<close>, whatever the order in which the tasks complete and wherever the runner's
  counter stands at the call, takes exactly as many steps as
  there are tasks: before that \<open>run\<close> has not returned and some task can settle, and
  then \<open>run\<close> returns an array with one element per task, the element at each index
  being that of the task at this index.  For an empty task list \<open>run\<close> returns the empty
  array without any step.
\<close>
theorem run_preserves_order:
  assumes "1 \<le> K" and "\<forall>t \<in> set tasks. well_behaved t"
    and "(step tasks ^^ n) (run_start r0 K tasks) c"
  shows "n \<le> length tasks
       \<and> (n < length tasks \<longrightarrow> run_result c = None \<and> (\<exists>c'. step tasks c c'))
       \<and> (n = length tasks \<longrightarrow>
            run_result c = Some (Returns (map expected_slot tasks))
            \<and> length (map expected_slot tasks) = length tasks
            \<and> (\<forall>i < length tasks. map expected_slot tasks ! i = expected_slot (tasks ! i)))
       \<and> (tasks = [] \<longrightarrow> run_result (run_start r0 K tasks) = Some (Returns []))"
proof -
  obtain ws s where c: "c = (ws, s)" by (cases c)
  note ex = run_execution [OF assms(1,2) assms(3) [unfolded c]]
  have "run_result (run_start r0 K tasks) = Some (Returns [])" if "tasks = []"
    using that by (simp add: run_start_eq run_result_def)
  with ex show ?thesis unfolding c by auto
qed

text \<open>
  Three tasks, two workers; the second task completes first, then the third, then the
  first.
\<close>

theorem run_preserves_order_witness:
  "(1::nat) \<le> 2 \<and> list_all well_behaved demo_tasks
   \<and> (step demo_tasks ^^ 3) (run_start 0 2 demo_tasks) demo_final
   \<and> run_result demo_final
       = Some (Returns [Some (Result 10), Some (ErrorPlaceholder ''boom''), Some (Result 30)])"
proof -
  have k: "(1::nat) \<le> 2" by simp
  have wb: "\<forall>t \<in> set demo_tasks. well_behaved t" by (simp add: demo_tasks_def)
  have "length [1, 1, 0 :: nat] = 3" by simp
  from run_picks_relpow [OF demo_run, unfolded this]
  have r: "(step demo_tasks ^^ 3) (run_start 0 2 demo_tasks) demo_final" .
  have l: "length demo_tasks = 3" by (simp add: demo_tasks_def)
  from run_preserves_order [OF k wb r] l
  have "run_result demo_final = Some (Returns (map expected_slot demo_tasks))" by simp
  then show ?thesis using k wb r by (simp add: demo_tasks_def list_all_iff)
qed

text \<open>
  Failure isolation where the rejection's message can be read: when the task at index
  \<open>j\<close> rejects with a message, a finished run has returned (it has not thrown), the
  placeholder with that message is at index \<open>j\<close>, and every other index holds the
  element of its own task, the value of every task that fulfilled in particular.
\<close>
theorem run_isolates_failures:
  assumes "1 \<le> K" and "\<forall>t \<in> set tasks. well_behaved t"
    and "(step tasks ^^ length tasks) (run_start r0 K tasks) (ws, s)"
    and "j < length tasks" and "tasks ! j = Rejects (Some m)"
  shows "run_result (ws, s) = Some (Returns (results s))
       \<and> length (results s) = length tasks
       \<and> results s ! j = Some (ErrorPlaceholder m)
       \<and> (\<forall>i < length tasks. i \<noteq> j \<longrightarrow> results s ! i = expected_slot (tasks ! i))
       \<and> (\<forall>i < length tasks. \<forall>v. tasks ! i = Fulfils v \<longrightarrow> results s ! i = Some (Result v))"
proof -
  from run_execution(3) [OF assms(1,2,3)]
  have r: "results s = map expected_slot tasks"
    and o: "run_result (ws, s) = Some (Returns (results s))" by simp_all
  from r assms(4,5) have "results s ! j = Some (ErrorPlaceholder m)" by simp
  moreover from r have "\<forall>i < length tasks. results s ! i = expected_slot (tasks ! i)" by simp
  moreover from r have "length (results s) = length tasks" by simp
  ultimately show ?thesis using o by auto
qed

text \<open>The second of three tasks rejects with the message \<open>boom\<close>.\<close>

theorem run_isolates_failures_witness:
  "(1::nat) \<le> 2 \<and> list_all well_behaved demo_tasks
   \<and> (step demo_tasks ^^ length demo_tasks) (run_start 0 2 demo_tasks) demo_final
   \<and> demo_tasks ! 1 = Rejects (Some ''boom'')
   \<and> results (snd demo_final) ! 1 = Some (ErrorPlaceholder ''boom'')
   \<and> results (snd demo_final) ! 0 = Some (Result 10)
   \<and> results (snd demo_final) ! 2 = Some (Result 30)
   \<and> run_result demo_final = Some (Returns (results (snd demo_final)))"
proof -
  have k: "(1::nat) \<le> 2" by simp
  have wb: "\<forall>t \<in> set demo_tasks. well_behaved t" by (simp add: demo_tasks_def)
  have l: "length demo_tasks = 3" by (simp add: demo_tasks_def)
  have "length [1, 1, 0 :: nat] = length demo_tasks" using l by simp
  from run_picks_relpow [OF demo_run, unfolded this]
  have r: "(step demo_tasks ^^ length demo_tasks) (run_start 0 2 demo_tasks)
             ([Finished False, Finished False], snd demo_final)"
    by (simp add: demo_final_def)
  have j: "1 < length demo_tasks" using l by simp
  have t: "demo_tasks ! 1 = Rejects (Some ''boom'')" by (simp add: demo_tasks_def)
  from run_isolates_failures [OF k wb r j t] k wb r t
  show ?thesis by (simp add: demo_final_def demo_tasks_def list_all_iff)
qed

lemma nullish_run:
  "run_picks nullish_tasks [1, 1, 0] (run_start 0 2 nullish_tasks) = Some nullish_final"
  by code_simp

text \<open>
  C5, where the code breaks it.  Three tasks run by two workers, the second rejecting
  with \<open>null\<close>: reading \<open>error.message\<close> throws inside the \<open>catch\<close> block, so no
  placeholder is stored.  The \<open>finally\<close> block still runs, and the other two tasks run
  and store their values; but index 1 stays a hole, the worker's promise rejects, and
  \<open>run\<close> throws instead of returning.
\<close>

theorem nullish_rejection_aborts_run:
  "(step nullish_tasks ^^ 3) (run_start 0 2 nullish_tasks) nullish_final
   \<and> nullish_tasks ! 1 = Rejects None
   \<and> results (snd nullish_final) = [Some (Result 10), None, Some (Result 30)]
   \<and> run_result nullish_final = Some ThrowsTypeError"
proof -
  have "length [1, 1, 0 :: nat] = 3" by simp
  from run_picks_relpow [OF nullish_run, unfolded this]
  show ?thesis by (simp add: run_result_def nullish_final_def nullish_tasks_def)
qed

section \<open>The concurrency ceiling\<close>

lemma demo_middle_run: "run_picks demo_tasks [1] (run_start 0 2 demo_tasks) = Some demo_middle"
  by code_simp

lemma step_rtranclp_interleaved:
  "(step tasks)\<^sup>*\<^sup>* c c' \<Longrightarrow> (interleaved tasks)\<^sup>*\<^sup>* c c'"
  by (induction rule: rtranclp_induct) (auto intro: interleaved.own rtranclp.rtrancl_into_rtrancl)

text \<open>
  C3, as the code has it.  In every configuration of a \<open>run\<close> call, for any tasks and
  whatever other \<open>run\<close> calls do to the runner meanwhile, the number of that call's
  tasks that are started and not settled is at most the concurrency \<open>K\<close>.
  \<open>getAggregatedData\<close> does not use the runner: it issues the requests for all stored keys
  that the runtime does not refuse before any of them settles, so that the number of
  requests in flight reaches the number of those keys.
\<close>

theorem concurrency_ceiling:
  "((interleaved tasks)\<^sup>*\<^sup>* (run_start r0 K tasks) (ws, s) \<longrightarrow> active ws \<le> K)
   \<and> peak_active 0 (snd (getAggregatedData E keyEntries))
       = length (filter (\<lambda>entry. \<not> is_refused (upstream E (entry_key entry))) keyEntries)"
proof -
  have "active ws \<le> K"
    if "(interleaved tasks)\<^sup>*\<^sup>* (run_start r0 K tasks) (ws, s)"
  proof -
    from ceiling_inv_reachable [OF that]
    have "length ws = min K (length tasks)"
      by (simp add: ceiling_inv_def)
    with active_le_length [of ws] show ?thesis by simp
  qed
  then show ?thesis by (simp add: getAggregatedData_peak)
qed

text \<open>
  A run of three tasks with two workers after its first step, with the shared counter
  moved by another call meanwhile, and an aggregation over three stored keys.
\<close>

theorem concurrency_ceiling_witness:
  "(interleaved demo_tasks)\<^sup>*\<^sup>* (run_start 0 2 demo_tasks)
      (fst demo_middle, (snd demo_middle)\<lparr>running := 7\<rparr>)
   \<and> active (fst demo_middle) = 2
   \<and> peak_active 0 (snd (getAggregatedData demo_env sample_store)) = 3"
proof -
  have "length [1 :: nat] = 1" by simp
  from run_picks_relpow [OF demo_middle_run, unfolded this]
  have "(step demo_tasks ^^ 1) (run_start 0 2 demo_tasks) demo_middle" .
  then have "(step demo_tasks)\<^sup>*\<^sup>* (run_start 0 2 demo_tasks) (fst demo_middle, snd demo_middle)"
    by auto
  then have "(interleaved demo_tasks)\<^sup>*\<^sup>* (run_start 0 2 demo_tasks)
               (fst demo_middle, snd demo_middle)"
    by (rule step_rtranclp_interleaved)
  moreover have "interleaved demo_tasks (fst demo_middle, snd demo_middle)
                   (fst demo_middle, (snd demo_middle)\<lparr>running := 7\<rparr>)"
    by (rule interleaved.other)
  ultimately have r: "(interleaved demo_tasks)\<^sup>*\<^sup>* (run_start 0 2 demo_tasks)
                        (fst demo_middle, (snd demo_middle)\<lparr>running := 7\<rparr>)"
    by (rule rtranclp.rtrancl_into_rtrancl)
  have a: "active (fst demo_middle) = 2" by (simp add: demo_middle_def active_def)
  have "length (filter (\<lambda>entry. \<not> is_refused (upstream demo_env (entry_key entry))) sample_store)
          = 3"
    by (simp add: sample_store_def mk_entry_def demo_env_def usage_body_def)
  with concurrency_ceiling [of demo_tasks 0 2 "fst demo_middle"
      "(snd demo_middle)\<lparr>running := 7\<rparr>" demo_env sample_store] r a
  show ?thesis by simp
qed

text \<open>
  Against C3 as stated: with nine stored keys an aggregation has nine requests in flight,
  more than the runner's ceiling of eight.
\<close>

theorem fan_out_exceeds_ceiling:
  "peak_active 0 (snd (getAggregatedData demo_env nine_key_store)) = 9
   \<and> taskRunner_concurrency = 8
   \<and> \<not> peak_active 0 (snd (getAggregatedData demo_env nine_key_store)) \<le> taskRunner_concurrency"
  by (simp add: getAggregatedData_peak nine_key_store_def taskRunner_concurrency_def
      mk_entry_def demo_env_def)

end
